theory Spec2Isabelle
  imports Main "HOL-Library.Sublist" "HOL-Library.Word"
begin

section \<open>Text and the constants of fix-revenue.py\<close>

text \<open>
  A Python \<open>str\<close> is a sequence of Unicode code points, and \<open>len\<close> counts code points.
  A code point is modelled as a natural number, a text as a list of them. The string
  literals of the script are ASCII and are written as HOL strings; \<open>str\<close> reads one as
  a text.
\<close>

type_synonym codepoint = nat
type_synonym unicode = "codepoint list"

definition str :: "string \<Rightarrow> unicode" where
  "str s = map of_char s"

text \<open>
  Line 10: \<open>old_pattern = r'\$\{\(goal as RevenueGoal\)\.currentAmount\}'\<close>. The literal
  is raw, so every backslash is a character of the pattern (\<open>CHR 0x5C\<close>).
\<close>

definition old_pattern :: string where
  "old_pattern =
     [CHR 0x5C] @ ''$'' @ [CHR 0x5C] @ ''{'' @ [CHR 0x5C] @ ''(goal as RevenueGoal''
     @ [CHR 0x5C] @ '')'' @ [CHR 0x5C] @ ''.currentAmount'' @ [CHR 0x5C] @ ''}''"

text \<open>Line 11: \<open>new_pattern = r'${progress.currentValue.toFixed(2)}'\<close>.\<close>

definition new_pattern :: string where
  "new_pattern = ''${progress.currentValue.toFixed(2)}''"

text \<open>
  The two texts the specification speaks of: the expression that is searched for and the
  expression that is put in its place.
\<close>

definition target_literal :: unicode where
  "target_literal = str ''${(goal as RevenueGoal).currentAmount}''"

definition replacement_literal :: unicode where
  "replacement_literal = str ''${progress.currentValue.toFixed(2)}''"


section \<open>The fragment of \<open>re\<close> that the script uses\<close>

text \<open>
  \<open>re.sub(pattern, repl, string)\<close> compiles the pattern, compiles the replacement template,
  and then scans the string from left to right, replacing every non-overlapping match.
  The model covers patterns built from literal characters, escaped characters and the
  dot; a pattern or a template outside this fragment, and one that Python rejects, has
  no parse.
\<close>

datatype re_item = Lit codepoint | Dot

definition ascii_alnum :: "char \<Rightarrow> bool" where
  "ascii_alnum c =
     (let n = (of_char c :: nat)
      in (48 \<le> n \<and> n \<le> 57) \<or> (65 \<le> n \<and> n \<le> 90) \<or> (97 \<le> n \<and> n \<le> 122))"

text \<open>
  The characters that are special when they stand unescaped in a pattern
  (\<open>SPECIAL_CHARS\<close> of the pattern parser, without the dot and the backslash, which
  are treated apart).
\<close>

definition special_chars :: "char list" where
  "special_chars = ''[{()*+?^$|''"

text \<open>
  A backslash followed by a character that is neither an ASCII letter nor a digit
  stands for that character. A backslash followed by a letter or a digit is a class, a
  group reference or an error, and a backslash at the end is an error: none is in the
  fragment.
\<close>

fun re_parse :: "string \<Rightarrow> re_item list option" where
  "re_parse [] = Some []"
| "re_parse [c] =
     (if c = CHR 0x5C \<or> c \<in> set special_chars then None
      else if c = CHR ''.'' then Some [Dot]
      else Some [Lit (of_char c)])"
| "re_parse (c # d # ds) =
     (if c = CHR 0x5C then
        (if ascii_alnum d then None
         else map_option ((#) (Lit (of_char d))) (re_parse ds))
      else if c \<in> set special_chars then None
      else if c = CHR ''.'' then map_option ((#) Dot) (re_parse (d # ds))
      else map_option ((#) (Lit (of_char c))) (re_parse (d # ds)))"

text \<open>
  Matching at the start of a text: the result is the text that follows the match. The
  dot matches every character but the newline (no \<open>DOTALL\<close> flag is given).
\<close>

fun re_match :: "re_item list \<Rightarrow> unicode \<Rightarrow> unicode option" where
  "re_match [] s = Some s"
| "re_match (i # is) [] = None"
| "re_match (Lit c # is) (x # xs) = (if x = c then re_match is xs else None)"
| "re_match (Dot # is) (x # xs) = (if x = 10 then None else re_match is xs)"

text \<open>
  The replacement template: a character other than the backslash stands for itself;
  a doubled backslash is a backslash and backslash-n a newline. A pattern of the
  fragment has no group, so a group reference is rejected (\<open>invalid group reference\<close>), as is every
  other escape here.
\<close>

fun parse_template :: "string \<Rightarrow> unicode option" where
  "parse_template [] = Some []"
| "parse_template [c] = (if c = CHR 0x5C then None else Some [of_char c])"
| "parse_template (c # d # ds) =
     (if c = CHR 0x5C then
        (if d = CHR 0x5C then map_option ((#) 92) (parse_template ds)
         else if d = CHR ''n'' then map_option ((#) 10) (parse_template ds)
         else None)
      else map_option ((#) (of_char c)) (parse_template (d # ds)))"

text \<open>
  The scan. At each position the pattern is tried; after a non-empty match the scan goes
  on behind the match; an empty match puts the replacement in and moves one character
  on; where nothing matches the character is copied.
\<close>

function re_scan :: "re_item list \<Rightarrow> unicode \<Rightarrow> unicode \<Rightarrow> unicode" where
  "re_scan p r [] = (case re_match p [] of None \<Rightarrow> [] | Some rest \<Rightarrow> r)"
| "re_scan p r (c # cs) =
     (case re_match p (c # cs) of
        None \<Rightarrow> c # re_scan p r cs
      | Some rest \<Rightarrow>
          if length rest < length (c # cs) then r @ re_scan p r rest
          else r @ c # re_scan p r cs)"
  by pat_completeness auto
termination
  by (relation "measure (\<lambda>(p, r, s). length s)") auto

datatype py_error =
    FileNotFoundError
  | PermissionError
  | IsADirectoryError
  | UnicodeDecodeError
  | UnicodeEncodeError
  | ReError

definition re_sub :: "string \<Rightarrow> string \<Rightarrow> unicode \<Rightarrow> py_error + unicode" where
  "re_sub pattern repl s =
     (case re_parse pattern of
        None \<Rightarrow> Inl ReError
      | Some p \<Rightarrow>
          (case parse_template repl of
             None \<Rightarrow> Inl ReError
           | Some r \<Rightarrow> Inr (re_scan p r s)))"

text \<open>Line 13: \<open>content = re.sub(old_pattern, new_pattern, content)\<close>.\<close>

definition substitute :: "unicode \<Rightarrow> py_error + unicode" where
  "substitute content = re_sub old_pattern new_pattern content"


section \<open>Files: bytes, UTF-8 and line endings\<close>

text \<open>
  Both \<open>open\<close> calls give \<open>encoding='utf-8'\<close> and leave \<open>newline\<close> at its default.
  So \<open>f.read()\<close> decodes the bytes of the file as strict UTF-8 and then turns every
  \<open>\r\n\<close> and every single \<open>\r\<close> into \<open>\n\<close>, and \<open>f.write\<close> turns every \<open>\n\<close> into
  the line separator of the platform and encodes the result as UTF-8.
\<close>

type_synonym byte = "8 word"

definition utf8_width :: "byte \<Rightarrow> nat option" where
  "utf8_width b =
     (let n = unat b
      in if n < 0x80 then Some 1
         else if 0xC2 \<le> n \<and> n \<le> 0xDF then Some 2
         else if 0xE0 \<le> n \<and> n \<le> 0xEF then Some 3
         else if 0xF0 \<le> n \<and> n \<le> 0xF4 then Some 4
         else None)"

definition is_cont :: "byte \<Rightarrow> bool" where
  "is_cont b = (0x80 \<le> unat b \<and> unat b \<le> 0xBF)"

definition surrogate :: "codepoint \<Rightarrow> bool" where
  "surrogate cp = (0xD800 \<le> cp \<and> cp \<le> 0xDFFF)"

text \<open>
  The code point of a lead byte and its continuation bytes. Overlong forms, surrogates
  and values above \<open>0x10FFFF\<close> are rejected.
\<close>

definition utf8_value :: "byte \<Rightarrow> byte list \<Rightarrow> codepoint option" where
  "utf8_value b cs =
     (if \<not> list_all is_cont cs then None
      else
        (case cs of
           [] \<Rightarrow> Some (unat b)
         | [c1] \<Rightarrow> Some ((unat b - 0xC0) * 64 + (unat c1 - 0x80))
         | [c1, c2] \<Rightarrow>
             (let cp = (unat b - 0xE0) * 4096 + (unat c1 - 0x80) * 64 + (unat c2 - 0x80)
              in if 0x800 \<le> cp \<and> \<not> surrogate cp then Some cp else None)
         | [c1, c2, c3] \<Rightarrow>
             (let cp = (unat b - 0xF0) * 262144 + (unat c1 - 0x80) * 4096
                         + (unat c2 - 0x80) * 64 + (unat c3 - 0x80)
              in if 0x10000 \<le> cp \<and> cp < 0x110000 then Some cp else None)
         | _ \<Rightarrow> None))"

function utf8_decode :: "byte list \<Rightarrow> unicode option" where
  "utf8_decode [] = Some []"
| "utf8_decode (b # bs) =
     (case utf8_width b of
        None \<Rightarrow> None
      | Some k \<Rightarrow>
          if length bs < k - 1 then None
          else
            (case utf8_value b (take (k - 1) bs) of
               None \<Rightarrow> None
             | Some cp \<Rightarrow> map_option ((#) cp) (utf8_decode (drop (k - 1) bs))))"
  by pat_completeness auto
termination
  by (relation "measure length") auto

definition utf8_encode_cp :: "codepoint \<Rightarrow> byte list option" where
  "utf8_encode_cp cp =
     (if cp < 0x80 then Some [of_nat cp]
      else if cp < 0x800 then Some [of_nat (0xC0 + cp div 64), of_nat (0x80 + cp mod 64)]
      else if cp < 0x10000 then
        (if surrogate cp then None
         else Some [of_nat (0xE0 + cp div 4096), of_nat (0x80 + cp div 64 mod 64),
                    of_nat (0x80 + cp mod 64)])
      else if cp < 0x110000 then
        Some [of_nat (0xF0 + cp div 262144), of_nat (0x80 + cp div 4096 mod 64),
              of_nat (0x80 + cp div 64 mod 64), of_nat (0x80 + cp mod 64)]
      else None)"

fun utf8_encode :: "unicode \<Rightarrow> byte list option" where
  "utf8_encode [] = Some []"
| "utf8_encode (c # cs) =
     (case utf8_encode_cp c of
        None \<Rightarrow> None
      | Some bs \<Rightarrow> map_option ((@) bs) (utf8_encode cs))"

text \<open>Universal newlines on reading; 13 is the carriage return, 10 the line feed.\<close>

fun translate_read :: "unicode \<Rightarrow> unicode" where
  "translate_read [] = []"
| "translate_read [c] = [if c = 13 then 10 else c]"
| "translate_read (c # d # cs) =
     (if c = 13 \<and> d = 10 then 10 # translate_read cs
      else if c = 13 then 10 # translate_read (d # cs)
      else c # translate_read (d # cs))"

datatype platform = Posix | Windows

definition linesep :: "platform \<Rightarrow> unicode" where
  "linesep plat = (case plat of Posix \<Rightarrow> [10] | Windows \<Rightarrow> [13, 10])"

definition translate_write :: "platform \<Rightarrow> unicode \<Rightarrow> unicode" where
  "translate_write plat s = concat (map (\<lambda>c. if c = 10 then linesep plat else [c]) s)"


section \<open>The file system and the script\<close>

text \<open>
  A path names nothing, a directory, or a regular file with its bytes and with what the
  process may do with it. Storage has no bound in the model. The world also holds what
  has been written to standard output and the tracebacks written to standard error.
\<close>

record regular_file =
  data :: "byte list"
  readable :: bool
  writable :: bool

datatype node = File regular_file | Directory

record world =
  files :: "string \<rightharpoonup> node"
  stdout :: unicode
  stderr :: "py_error list"

text \<open>\<open>open(path, 'r', encoding='utf-8')\<close>: the bytes that the handle will give.\<close>

definition open_read :: "world \<Rightarrow> string \<Rightarrow> py_error + byte list" where
  "open_read w path =
     (case files w path of
        None \<Rightarrow> Inl FileNotFoundError
      | Some Directory \<Rightarrow> Inl IsADirectoryError
      | Some (File f) \<Rightarrow> if readable f then Inr (data f) else Inl PermissionError)"

text \<open>\<open>f.read()\<close> on a text handle.\<close>

definition read_text :: "byte list \<Rightarrow> py_error + unicode" where
  "read_text bs =
     (case utf8_decode bs of
        None \<Rightarrow> Inl UnicodeDecodeError
      | Some s \<Rightarrow> Inr (translate_read s))"

text \<open>Lines 5 and 6: \<open>with open(...) as f: content = f.read()\<close>.\<close>

definition read_file :: "world \<Rightarrow> string \<Rightarrow> py_error + unicode" where
  "read_file w path =
     (case open_read w path of
        Inl e \<Rightarrow> Inl e
      | Inr bs \<Rightarrow> read_text bs)"

text \<open>
  \<open>open(path, 'w', encoding='utf-8')\<close>: an existing file is truncated at once, a missing
  one is created.
\<close>

definition open_write :: "string \<Rightarrow> world \<Rightarrow> (py_error + unit) \<times> world" where
  "open_write path w =
     (case files w path of
        None \<Rightarrow>
          (Inr (), w\<lparr>files := (files w)(path \<mapsto>
                      File \<lparr>data = [], readable = True, writable = True\<rparr>)\<rparr>)
      | Some Directory \<Rightarrow> (Inl IsADirectoryError, w)
      | Some (File f) \<Rightarrow>
          if writable f then (Inr (), w\<lparr>files := (files w)(path \<mapsto> File (f\<lparr>data := []\<rparr>))\<rparr>)
          else (Inl PermissionError, w))"

definition append_bytes :: "string \<Rightarrow> byte list \<Rightarrow> world \<Rightarrow> world" where
  "append_bytes path bs w =
     w\<lparr>files := (files w)(path :=
          map_option (\<lambda>n. case n of File f \<Rightarrow> File (f\<lparr>data := data f @ bs\<rparr>)
                                  | Directory \<Rightarrow> Directory)
            (files w path))\<rparr>"

text \<open>Lines 16 and 17: \<open>with open(...) as f: f.write(content)\<close>.\<close>

definition write_file :: "platform \<Rightarrow> string \<Rightarrow> unicode \<Rightarrow> world \<Rightarrow> (py_error + unit) \<times> world" where
  "write_file plat path s w =
     (case open_write path w of
        (Inl e, w') \<Rightarrow> (Inl e, w')
      | (Inr u, w') \<Rightarrow>
          (case utf8_encode (translate_write plat s) of
             None \<Rightarrow> (Inl UnicodeEncodeError, w')
           | Some bs \<Rightarrow> (Inr (), append_bytes path bs w')))"

definition target_path :: string where
  "target_path = ''src/components/Goals.tsx''"

text \<open>Line 19: \<open>print("Fixed!")\<close> writes the message and a newline.\<close>

definition confirmation :: unicode where
  "confirmation = str ''Fixed!'' @ [10]"

definition print_fixed :: "world \<Rightarrow> world" where
  "print_fixed w = w\<lparr>stdout := stdout w @ confirmation\<rparr>"

text \<open>
  The script, top to bottom. It has no \<open>try\<close>: the first exception ends it, with the
  world as it is at that moment.
\<close>

definition run :: "platform \<Rightarrow> world \<Rightarrow> (py_error + unit) \<times> world" where
  "run plat w =
     (case read_file w target_path of
        Inl e \<Rightarrow> (Inl e, w)
      | Inr content \<Rightarrow>
          (case substitute content of
             Inl e \<Rightarrow> (Inl e, w)
           | Inr content' \<Rightarrow>
               (case write_file plat target_path content' w of
                  (Inl e, w') \<Rightarrow> (Inl e, w')
                | (Inr u, w') \<Rightarrow> (Inr (), print_fixed w'))))"

text \<open>
  The interpreter around the script: an exception that reaches the top is reported as a
  traceback on standard error and the exit status is 1; otherwise the status is 0.
\<close>

definition main :: "platform \<Rightarrow> world \<Rightarrow> nat \<times> world" where
  "main plat w =
     (case run plat w of
        (Inl e, w') \<Rightarrow> (1, w'\<lparr>stderr := stderr w' @ [e]\<rparr>)
      | (Inr u, w') \<Rightarrow> (0, w'))"

text \<open>
  What the script makes of the decoded bytes of the file: the text as \<open>f.read()\<close> gives
  it, with the substitution done.
\<close>

definition fixed_text :: "unicode \<Rightarrow> unicode" where
  "fixed_text s = re_scan (map Lit target_literal) replacement_literal (translate_read s)"

text \<open>The bytes of the target file, where there is one.\<close>

definition target_bytes :: "world \<Rightarrow> byte list option" where
  "target_bytes w =
     (case files w target_path of
        Some (File f) \<Rightarrow> Some (data f)
      | _ \<Rightarrow> None)"


section \<open>Notions of the specification\<close>

text \<open>
  The number of occurrences of \<open>p\<close> in \<open>s\<close>: the number of positions of \<open>s\<close> at
  which \<open>p\<close> starts.
\<close>

fun occurrences :: "'a list \<Rightarrow> 'a list \<Rightarrow> nat" where
  "occurrences p [] = (if p = [] then 1 else 0)"
| "occurrences p (c # cs) = (if prefix p (c # cs) then 1 else 0) + occurrences p cs"

text \<open>The pieces \<open>gs\<close> put together with \<open>sep\<close> between each two neighbours.\<close>

fun join :: "'a list \<Rightarrow> 'a list list \<Rightarrow> 'a list" where
  "join sep [] = []"
| "join sep [g] = g"
| "join sep (g # h # gs) = g @ sep @ join sep (h # gs)"

text \<open>
  Worlds for concrete runs: the target file alone, with the given bytes and permissions,
  and nothing printed yet.
\<close>

definition world_with :: "regular_file \<Rightarrow> world" where
  "world_with f = \<lparr>files = [target_path \<mapsto> File f], stdout = [], stderr = []\<rparr>"

definition world_of :: "byte list \<Rightarrow> world" where
  "world_of bs = world_with \<lparr>data = bs, readable = True, writable = True\<rparr>"

text \<open>The bytes of an ASCII string, one byte for each character.\<close>

definition ascii_bytes :: "string \<Rightarrow> byte list" where
  "ascii_bytes cs = map of_char cs"


section \<open>The scan with a literal pattern\<close>

lemma parse_old: "re_parse old_pattern = Some (map Lit target_literal)"
  by (simp add: old_pattern_def target_literal_def str_def special_chars_def ascii_alnum_def)
lemma parse_new: "parse_template new_pattern = Some replacement_literal"
  by (simp add: new_pattern_def replacement_literal_def str_def)

lemma re_match_lits:
  "re_match (map Lit p) s = (if prefix p s then Some (drop (length p) s) else None)"
proof (induction p arbitrary: s)
  case Nil
  show ?case by simp
next
  case (Cons a p)
  show ?case
  proof (cases s)
    case Nil
    then show ?thesis by simp
  next
    case (Cons x xs)
    then show ?thesis using Cons.IH [of xs] by simp
  qed
qed

lemma scan_nil: "p \<noteq> [] \<Longrightarrow> re_scan (map Lit p) r [] = []"
  by (simp add: re_match_lits)

lemma scan_hit:
  assumes "p \<noteq> []"
  shows "re_scan (map Lit p) r (p @ t) = r @ re_scan (map Lit p) r t"
proof -
  obtain a q where p: "p = a # q" using assms by (cases p) auto
  have "re_scan (map Lit p) r (a # q @ t) = r @ re_scan (map Lit p) r t"
    by (subst re_scan.simps) (simp add: re_match_lits p)
  then show ?thesis by (simp add: p)
qed

lemma scan_miss:
  "\<not> prefix p (c # cs) \<Longrightarrow> re_scan (map Lit p) r (c # cs) = c # re_scan (map Lit p) r cs"
  by (simp add: re_match_lits)

lemma lit_scan_induct [case_names Nil Hit Miss]:
  assumes nil: "Q []"
    and hit: "\<And>t. Q t \<Longrightarrow> Q ((a # x) @ t)"
    and miss: "\<And>c cs. \<not> prefix (a # x) (c # cs) \<Longrightarrow> Q cs \<Longrightarrow> Q (c # cs)"
  shows "Q s"
proof (induction s rule: length_induct)
  case (1 s)
  show ?case
  proof (cases s)
    case Nil
    then show ?thesis using nil by simp
  next
    case (Cons c cs)
    show ?thesis
    proof (cases "prefix (a # x) s")
      case True
      then obtain t where t: "s = (a # x) @ t" by (auto simp: prefix_def)
      then have "length t < length s" by simp
      with 1 have "Q t" by blast
      then show ?thesis using hit t by simp
    next
      case False
      have "Q cs" using 1 Cons by simp
      then show ?thesis using miss False Cons by simp
    qed
  qed
qed

declare re_scan.simps [simp del]

lemma scan_nil_cons: "re_scan (Lit a # map Lit x) r [] = []"
  using scan_nil [of "a # x" r] by simp

lemma scan_miss_cons:
  "\<not> prefix (a # x) (c # cs) \<Longrightarrow>
     re_scan (Lit a # map Lit x) r (c # cs) = c # re_scan (Lit a # map Lit x) r cs"
  using scan_miss [of "a # x" c cs r] by simp

subsection \<open>Counting occurrences\<close>

lemma occ_skip:
  "a \<notin> set u \<Longrightarrow> occurrences (a # q) (u @ t) = occurrences (a # q) t"
  by (induction u) auto

lemma occ_self:
  assumes "a \<notin> set q"
  shows "occurrences (a # q) ((a # q) @ t) = Suc (occurrences (a # q) t)"
  using occ_skip [OF assms, of q t] by simp

lemma occ_cross:
  assumes "a \<notin> set y" and "\<not> prefix (a # x) (a # y)" and "\<not> prefix (a # y) (a # x)"
  shows "occurrences (a # x) ((a # y) @ t) = occurrences (a # x) t"
proof -
  have "\<not> prefix (a # x) ((a # y) @ t)"
    using assms(2,3) prefix_same_cases [of "a # x" "(a # y) @ t" "a # y"] by auto
  then show ?thesis using occ_skip [OF assms(1), of x t] by simp
qed

lemma scan_keeps_prefix:
  assumes "a \<notin> set q"
  shows "prefix q (re_scan (map Lit (a # x)) (a # y) t) \<longleftrightarrow> prefix q t"
  using assms
proof (induction t arbitrary: q rule: lit_scan_induct [where a = a and x = x])
  case Nil
  show ?case by (simp add: scan_nil_cons)
next
  case (Hit t)
  have "re_scan (map Lit (a # x)) (a # y) ((a # x) @ t)
          = (a # y) @ re_scan (map Lit (a # x)) (a # y) t"
    by (rule scan_hit) simp
  then show ?case using Hit(2) by (cases q) auto
next
  case (Miss c cs)
  then show ?case by (cases q) (auto simp: scan_miss_cons)
qed

lemma scan_no_occ:
  assumes "a \<notin> set x" and "a \<notin> set y"
    and "\<not> prefix (a # x) (a # y)" and "\<not> prefix (a # y) (a # x)"
  shows "occurrences (a # x) (re_scan (map Lit (a # x)) (a # y) s) = 0"
proof (induction s rule: lit_scan_induct [where a = a and x = x])
  case Nil
  show ?case by (simp add: scan_nil_cons)
next
  case (Hit t)
  have "re_scan (map Lit (a # x)) (a # y) ((a # x) @ t)
          = (a # y) @ re_scan (map Lit (a # x)) (a # y) t"
    by (rule scan_hit) simp
  then show ?case using Hit occ_cross [OF assms(2,3,4)] by simp
next
  case (Miss c cs)
  have "\<not> prefix (a # x) (c # re_scan (map Lit (a # x)) (a # y) cs)"
    using Miss(1) scan_keeps_prefix [where a = a and q = x and x = x and y = y and t = cs] assms(1)
    by simp
  then show ?case using Miss by (simp add: scan_miss_cons)
qed

lemma scan_occ_repl:
  assumes "a \<notin> set x" and "a \<notin> set y"
    and "\<not> prefix (a # x) (a # y)" and "\<not> prefix (a # y) (a # x)"
  shows "occurrences (a # y) (re_scan (map Lit (a # x)) (a # y) s)
           = occurrences (a # x) s + occurrences (a # y) s"
proof (induction s rule: lit_scan_induct [where a = a and x = x])
  case Nil
  show ?case by (simp add: scan_nil_cons)
next
  case (Hit t)
  have "re_scan (map Lit (a # x)) (a # y) ((a # x) @ t)
          = (a # y) @ re_scan (map Lit (a # x)) (a # y) t"
    by (rule scan_hit) simp
  then show ?case
    using Hit occ_self [OF assms(1), of t] occ_self [OF assms(2)]
      occ_cross [OF assms(1,4,3), of t]
    by simp
next
  case (Miss c cs)
  have "prefix (a # y) (c # re_scan (map Lit (a # x)) (a # y) cs) \<longleftrightarrow> prefix (a # y) (c # cs)"
    using scan_keeps_prefix [where a = a and q = y and x = x and y = y and t = cs] assms(2)
    by simp
  then show ?case using Miss by (simp add: scan_miss_cons)
qed

lemma scan_join:
  assumes "a \<notin> set x"
  shows "\<exists>gaps. length gaps = Suc (occurrences (a # x) s) \<and> s = join (a # x) gaps
           \<and> re_scan (map Lit (a # x)) r s = join r gaps"
proof (induction s rule: lit_scan_induct [where a = a and x = x])
  case Nil
  have "length [[]] = Suc (occurrences (a # x) []) \<and> [] = join (a # x) [[]]
          \<and> re_scan (map Lit (a # x)) r [] = join r [[]]"
    by (simp add: scan_nil_cons)
  then show ?case by blast
next
  case (Hit t)
  then obtain gaps where g: "length gaps = Suc (occurrences (a # x) t)"
    "t = join (a # x) gaps" "re_scan (map Lit (a # x)) r t = join r gaps"
    by blast
  from g(1) obtain h hs where hs: "gaps = h # hs" by (cases gaps) auto
  have sc: "re_scan (map Lit (a # x)) r ((a # x) @ t) = r @ re_scan (map Lit (a # x)) r t"
    by (rule scan_hit) simp
  have "length ([] # gaps) = Suc (occurrences (a # x) ((a # x) @ t))
          \<and> (a # x) @ t = join (a # x) ([] # gaps)
          \<and> re_scan (map Lit (a # x)) r ((a # x) @ t) = join r ([] # gaps)"
    using g hs sc occ_self [OF assms, of t] by simp
  then show ?case by blast
next
  case (Miss c cs)
  then obtain gaps where g: "length gaps = Suc (occurrences (a # x) cs)"
    "cs = join (a # x) gaps" "re_scan (map Lit (a # x)) r cs = join r gaps"
    by blast
  from g(1) obtain h hs where hs: "gaps = h # hs" by (cases gaps) auto
  have j: "\<And>sep. join sep ((c # h) # hs) = c # join sep (h # hs)"
    by (cases hs) simp_all
  have "length ((c # h) # hs) = Suc (occurrences (a # x) (c # cs))
          \<and> c # cs = join (a # x) ((c # h) # hs)
          \<and> re_scan (map Lit (a # x)) r (c # cs) = join r ((c # h) # hs)"
    using g hs Miss(1) j by (simp add: scan_miss_cons)
  then show ?case by blast
qed

lemma scan_fixed:
  "occurrences p s = 0 \<Longrightarrow> re_scan (map Lit p) r s = s"
proof (induction s)
  case Nil
  then show ?case by (simp add: scan_nil split: if_splits)
next
  case (Cons c cs)
  then show ?case by (simp add: scan_miss split: if_splits)
qed

lemma scan_length:
  assumes "a \<notin> set x"
  shows "length (re_scan (map Lit (a # x)) r s) + occurrences (a # x) s * length (a # x)
           = length s + occurrences (a # x) s * length r"
proof (induction s rule: lit_scan_induct [where a = a and x = x])
  case Nil
  show ?case by (simp add: scan_nil_cons)
next
  case (Hit t)
  have "re_scan (map Lit (a # x)) r ((a # x) @ t) = r @ re_scan (map Lit (a # x)) r t"
    by (rule scan_hit) simp
  then show ?case using Hit occ_self [OF assms, of t] by simp
next
  case (Miss c cs)
  then show ?case by (auto simp: scan_miss_cons)
qed


section \<open>The two expressions of the script\<close>

lemma target_shape:
  "\<exists>x. target_literal = 36 # x \<and> 36 \<notin> set x \<and> length x = 37 \<and> 13 \<notin> set x \<and> 10 \<notin> set x
       \<and> hd x = 123 \<and> hd (tl x) = 40"
  by (simp add: target_literal_def str_def)

lemma replacement_shape:
  "\<exists>y. replacement_literal = 36 # y \<and> 36 \<notin> set y \<and> length y = 34 \<and> 13 \<notin> set y \<and> 10 \<notin> set y
       \<and> hd y = 123 \<and> hd (tl y) = 112"
  by (simp add: replacement_literal_def str_def)

lemma substitute_eq:
  "substitute s = Inr (re_scan (map Lit target_literal) replacement_literal s)"
  by (simp add: substitute_def re_sub_def parse_old parse_new)

lemma literals_incomparable:
  "\<not> prefix target_literal replacement_literal \<and> \<not> prefix replacement_literal target_literal"
  by (simp add: target_literal_def replacement_literal_def str_def)

lemma literal_lengths: "length target_literal = 38 \<and> length replacement_literal = 35"
  by (simp add: target_literal_def replacement_literal_def str_def)

lemma substitute_props:
  "\<exists>out gaps. substitute s = Inr out
     \<and> occurrences target_literal out = 0
     \<and> occurrences replacement_literal out
          = occurrences target_literal s + occurrences replacement_literal s
     \<and> length gaps = Suc (occurrences target_literal s)
     \<and> s = join target_literal gaps
     \<and> out = join replacement_literal gaps"
proof -
  obtain x where x: "target_literal = 36 # x" "36 \<notin> set x"
    using target_shape by blast
  obtain y where y: "replacement_literal = 36 # y" "36 \<notin> set y"
    using replacement_shape by blast
  have inc: "\<not> prefix (36 # x) (36 # y)" "\<not> prefix (36 # y) (36 # x)"
    using literals_incomparable unfolding x(1) y(1) by blast+
  define out where "out = re_scan (map Lit (36 # x)) (36 # y) s"
  have a: "occurrences (36 # x) out = 0"
    unfolding out_def by (rule scan_no_occ [OF x(2) y(2) inc])
  have b: "occurrences (36 # y) out = occurrences (36 # x) s + occurrences (36 # y) s"
    unfolding out_def by (rule scan_occ_repl [OF x(2) y(2) inc])
  obtain gaps where g: "length gaps = Suc (occurrences (36 # x) s)"
    "s = join (36 # x) gaps" "out = join (36 # y) gaps"
    unfolding out_def using scan_join [OF x(2), of s "36 # y"] by blast
  have "substitute s = Inr out"
    by (simp only: substitute_eq out_def x(1) y(1))
  then show ?thesis using a b g unfolding x(1) y(1) by blast
qed

lemma substitute_idem:
  "\<exists>out. substitute s = Inr out \<and> substitute out = Inr out"
proof -
  obtain out where o: "substitute s = Inr out" "occurrences target_literal out = 0"
    using substitute_props [of s] by blast
  have "substitute out = Inr out"
    using scan_fixed [OF o(2)] by (simp add: substitute_eq)
  with o show ?thesis by blast
qed


section \<open>The script on a world\<close>

declare utf8_decode.simps [simp del]

lemma run_read_failure:
  "read_file w target_path = Inl e \<Longrightarrow> run plat w = (Inl e, w)"
  by (simp add: run_def)

lemma read_file_missing:
  "files w path = None \<Longrightarrow> read_file w path = Inl FileNotFoundError"
  by (simp add: read_file_def open_read_def)

lemma read_file_unreadable:
  "files w path = Some (File f) \<Longrightarrow> \<not> readable f \<Longrightarrow> read_file w path = Inl PermissionError"
  by (simp add: read_file_def open_read_def)

lemma read_file_readable:
  "files w path = Some (File f) \<Longrightarrow> readable f \<Longrightarrow> read_file w path = read_text (data f)"
  by (simp add: read_file_def open_read_def)

lemma write_file_unwritable:
  "files w path = Some (File f) \<Longrightarrow> \<not> writable f \<Longrightarrow>
     write_file plat path s w = (Inl PermissionError, w)"
  by (simp add: write_file_def open_write_def)

lemma run_unwritable:
  assumes "files w target_path = Some (File f)" and "\<not> writable f"
  shows "\<exists>e. run plat w = (Inl e, w) \<and> (readable f \<and> utf8_decode (data f) \<noteq> None \<longrightarrow> e = PermissionError)"
proof (cases "read_file w target_path")
  case (Inl e)
  then have "run plat w = (Inl e, w)" by (rule run_read_failure)
  moreover have "\<not> (readable f \<and> utf8_decode (data f) \<noteq> None)"
    using Inl assms(1) by (auto simp: read_file_def open_read_def read_text_def split: if_splits option.splits)
  ultimately show ?thesis by blast
next
  case (Inr content)
  then show ?thesis
    using write_file_unwritable [OF assms]
    by (simp add: run_def substitute_eq)
qed

lemma main_failure:
  "run plat w = (Inl e, w') \<Longrightarrow> main plat w = (1, w'\<lparr>stderr := stderr w' @ [e]\<rparr>)"
  by (simp add: main_def)

lemma write_file_ok:
  assumes "files w path = Some (File f)" and "writable f"
    and "utf8_encode (translate_write plat s) = Some bs"
  shows "write_file plat path s w
           = (Inr (), w\<lparr>files := (files w)(path \<mapsto> File (f\<lparr>data := bs\<rparr>))\<rparr>)"
  using assms by (simp add: write_file_def open_write_def append_bytes_def)

lemma write_file_encode_error:
  assumes "files w path = Some (File f)" and "writable f"
    and "utf8_encode (translate_write plat s) = None"
  shows "write_file plat path s w
           = (Inl UnicodeEncodeError, w\<lparr>files := (files w)(path \<mapsto> File (f\<lparr>data := []\<rparr>))\<rparr>)"
  using assms by (simp add: write_file_def open_write_def)

lemma run_ok:
  assumes "files w target_path = Some (File f)" and "readable f" and "writable f"
    and "utf8_decode (data f) = Some s"
    and "utf8_encode (translate_write plat (fixed_text s)) = Some bs"
  shows "run plat w
           = (Inr (), print_fixed (w\<lparr>files := (files w)(target_path \<mapsto> File (f\<lparr>data := bs\<rparr>))\<rparr>))"
proof -
  have "read_file w target_path = Inr (translate_read s)"
    using assms(1,2,4) by (simp add: read_file_readable read_text_def)
  moreover have "write_file plat target_path (fixed_text s) w
      = (Inr (), w\<lparr>files := (files w)(target_path \<mapsto> File (f\<lparr>data := bs\<rparr>))\<rparr>)"
    using assms(1,3,5) by (rule write_file_ok)
  ultimately show ?thesis by (simp add: run_def substitute_eq fixed_text_def)
qed

lemma ex1_decode: "utf8_decode [0x61, 0x0D, 0x0A, 0x62] = Some [97, 13, 10, 98]"
  by (simp add: utf8_decode.simps utf8_width_def utf8_value_def)

lemma ex1_fixed: "fixed_text [97, 13, 10, 98] = [97, 10, 98]"
  by (simp add: fixed_text_def re_scan.simps target_literal_def str_def)

lemma ex1_encode: "utf8_encode (translate_write Posix [97, 10, 98]) = Some [0x61, 0x0A, 0x62]"
  by (simp add: translate_write_def linesep_def utf8_encode_cp_def)

lemma run_missing:
  "files w target_path = None \<Longrightarrow> run plat w = (Inl FileNotFoundError, w)"
  by (simp add: run_read_failure read_file_missing)

lemma run_directory:
  "files w target_path = Some Directory \<Longrightarrow> run plat w = (Inl IsADirectoryError, w)"
  by (simp add: run_def read_file_def open_read_def)

lemma run_file:
  assumes "files w target_path = Some (File f)"
  shows "run plat w =
     (if \<not> readable f then (Inl PermissionError, w)
      else case utf8_decode (data f) of
             None \<Rightarrow> (Inl UnicodeDecodeError, w)
           | Some s \<Rightarrow>
               if \<not> writable f then (Inl PermissionError, w)
               else case utf8_encode (translate_write plat (fixed_text s)) of
                      None \<Rightarrow> (Inl UnicodeEncodeError,
                                w\<lparr>files := (files w)(target_path \<mapsto> File (f\<lparr>data := []\<rparr>))\<rparr>)
                    | Some bs \<Rightarrow> (Inr (),
                        print_fixed (w\<lparr>files := (files w)(target_path \<mapsto> File (f\<lparr>data := bs\<rparr>))\<rparr>)))"
proof (cases "readable f")
  case False
  then show ?thesis using assms by (simp add: run_read_failure read_file_unreadable)
next
  case True
  note rd = read_file_readable [OF assms True]
  show ?thesis
  proof (cases "utf8_decode (data f)")
    case None
    then show ?thesis using True rd by (simp add: run_def read_text_def)
  next
    case (Some s)
    have r: "read_file w target_path = Inr (translate_read s)"
      using rd Some by (simp add: read_text_def)
    show ?thesis
    proof (cases "writable f")
      case False
      then show ?thesis
        using True Some r write_file_unwritable [OF assms False]
        by (simp add: run_def substitute_eq)
    next
      case w: True
      show ?thesis
      proof (cases "utf8_encode (translate_write plat (fixed_text s))")
        case None
        then show ?thesis
          using True Some w r write_file_encode_error [OF assms w None]
          by (simp add: run_def substitute_eq fixed_text_def)
      next
        case (Some bs)
        then show ?thesis
          using True \<open>utf8_decode (data f) = Some s\<close> w run_ok [OF assms True w _ Some]
          by simp
      qed
    qed
  qed
qed

lemma run_local:
  assumes "files w1 target_path = files w2 target_path"
  shows "fst (run plat w1) = fst (run plat w2)
       \<and> files (snd (run plat w1)) target_path = files (snd (run plat w2)) target_path
       \<and> (\<exists>out. stdout (snd (run plat w1)) = stdout w1 @ out
                \<and> stdout (snd (run plat w2)) = stdout w2 @ out)"
proof (cases "files w1 target_path")
  case None
  then show ?thesis using assms by (simp add: run_missing)
next
  case (Some n)
  show ?thesis
  proof (cases n)
    case Directory
    then show ?thesis using Some assms by (simp add: run_directory)
  next
    case (File f)
    have 1: "files w1 target_path = Some (File f)" using Some File by simp
    have 2: "files w2 target_path = Some (File f)" using 1 assms by simp
    show ?thesis
      unfolding run_file [OF 1] run_file [OF 2] using assms
      by (simp add: print_fixed_def split: option.splits)
  qed
qed

lemma run_frame:
  "p \<noteq> target_path \<Longrightarrow> files (snd (run plat w)) p = files w p"
proof (cases "files w target_path")
  case None
  then show ?thesis by (simp add: run_missing)
next
  case (Some n)
  assume p: "p \<noteq> target_path"
  show ?thesis
  proof (cases n)
    case Directory
    then show ?thesis using Some by (simp add: run_directory)
  next
    case (File f)
    have 1: "files w target_path = Some (File f)" using Some File by simp
    show ?thesis
      unfolding run_file [OF 1] using p
      by (simp add: print_fixed_def split: option.splits)
  qed
qed

lemma scan_target_nil: "fixed_text [] = []"
  by (simp add: fixed_text_def re_scan.simps target_literal_def str_def)


section \<open>UTF-8: decoding and encoding undo each other\<close>

lemma unat_byte_of_nat: "n < 256 \<Longrightarrow> unat (of_nat n :: byte) = n"
  by (simp add: unat_of_nat)

lemma byte_of_unat: "of_nat (unat (b :: byte)) = b"
  by simp

lemma value_encode1:
  assumes "unat b < 0x80"
  shows "utf8_encode_cp (unat b) = Some [b]"
  using assms by (simp add: utf8_encode_cp_def)

lemma value_encode2:
  assumes "0xC2 \<le> unat b" "unat b \<le> 0xDF" "is_cont c1"
  shows "utf8_encode_cp ((unat b - 0xC0) * 64 + (unat c1 - 0x80)) = Some [b, c1]"
proof -
  define a x where "a = unat b - 0xC0" and "x = unat c1 - 0x80"
  have a: "2 \<le> a" "a < 32" "unat b = 0xC0 + a" using assms by (auto simp: a_def)
  have x: "x < 64" "unat c1 = 0x80 + x" using assms by (auto simp: x_def is_cont_def)
  have d: "(a * 64 + x) div 64 = a" "(a * 64 + x) mod 64 = x" using x by auto
  have r: "0x80 \<le> a * 64 + x" "a * 64 + x < 0x800" using a x by auto
  have "of_nat (0xC0 + a) = b" "of_nat (0x80 + x) = c1"
    using a(3) x(2) byte_of_unat [of b] byte_of_unat [of c1] by simp_all
  then show ?thesis
    unfolding a_def [symmetric] x_def [symmetric] using d r
    by (simp add: utf8_encode_cp_def)
qed


lemma split3:
  fixes a x y :: nat
  assumes "x < 64" "y < 64"
  shows "(a * 4096 + x * 64 + y) div 4096 = a"
    and "(a * 4096 + x * 64 + y) div 64 mod 64 = x"
    and "(a * 4096 + x * 64 + y) mod 64 = y"
proof -
  define n where "n = a * 64 + x"
  have e: "a * 4096 + x * 64 + y = n * 64 + y" by (simp add: n_def)
  have "(n * 64 + y) div 64 = n" using assms(2) by simp
  then have d: "(a * 4096 + x * 64 + y) div 64 = n" by (simp only: e)
  have "(n * 64 + y) mod 64 = y" using assms(2) by simp
  then show "(a * 4096 + x * 64 + y) mod 64 = y" by (simp only: e)
  have nx: "n mod 64 = x" and na: "n div 64 = a" using assms(1) by (simp_all add: n_def)
  show "(a * 4096 + x * 64 + y) div 64 mod 64 = x"
    by (simp only: d nx)
  have "(a * 4096 + x * 64 + y) div 4096 = (a * 4096 + x * 64 + y) div 64 div 64"
    by (simp add: div_mult2_eq [symmetric])
  then show "(a * 4096 + x * 64 + y) div 4096 = a"
    by (simp only: d na)
qed

lemma split4:
  fixes a x y z :: nat
  assumes "x < 64" "y < 64" "z < 64"
  shows "(a * 262144 + x * 4096 + y * 64 + z) div 262144 = a"
    and "(a * 262144 + x * 4096 + y * 64 + z) div 4096 mod 64 = x"
    and "(a * 262144 + x * 4096 + y * 64 + z) div 64 mod 64 = y"
    and "(a * 262144 + x * 4096 + y * 64 + z) mod 64 = z"
proof -
  define m where "m = a * 4096 + x * 64 + y"
  have e: "a * 262144 + x * 4096 + y * 64 + z = m * 64 + z" by (simp add: m_def)
  have d: "(a * 262144 + x * 4096 + y * 64 + z) div 64 = m"
    unfolding e using assms(3) by simp
  have "(m * 64 + z) mod 64 = z"
    using assms(3) by simp
  then show "(a * 262144 + x * 4096 + y * 64 + z) mod 64 = z"
    by (simp only: e)
  show "(a * 262144 + x * 4096 + y * 64 + z) div 64 mod 64 = y"
    unfolding d m_def using split3(3) [OF assms(1,2)] by simp
  have "(a * 262144 + x * 4096 + y * 64 + z) div 4096
          = (a * 262144 + x * 4096 + y * 64 + z) div 64 div 64"
    by (simp add: div_mult2_eq [symmetric])
  then show "(a * 262144 + x * 4096 + y * 64 + z) div 4096 mod 64 = x"
    unfolding d m_def using split3(2) [OF assms(1,2)] by simp
  have "(a * 262144 + x * 4096 + y * 64 + z) div 262144
          = (a * 262144 + x * 4096 + y * 64 + z) div 64 div 4096"
    by (simp add: div_mult2_eq [symmetric])
  then show "(a * 262144 + x * 4096 + y * 64 + z) div 262144 = a"
    unfolding d m_def using split3(1) [OF assms(1,2)] by simp
qed

lemma value_encode3:
  assumes "0xE0 \<le> unat b" "unat b \<le> 0xEF" "is_cont c1" "is_cont c2"
    and "0x800 \<le> (unat b - 0xE0) * 4096 + (unat c1 - 0x80) * 64 + (unat c2 - 0x80)"
    and "\<not> surrogate ((unat b - 0xE0) * 4096 + (unat c1 - 0x80) * 64 + (unat c2 - 0x80))"
  shows "utf8_encode_cp ((unat b - 0xE0) * 4096 + (unat c1 - 0x80) * 64 + (unat c2 - 0x80))
           = Some [b, c1, c2]"
proof -
  define a x y where "a = unat b - 0xE0" and "x = unat c1 - 0x80" and "y = unat c2 - 0x80"
  define cp where "cp = a * 4096 + x * 64 + y"
  have a: "a < 16" "unat b = 0xE0 + a" using assms(1,2) by (auto simp: a_def)
  have x: "x < 64" "unat c1 = 0x80 + x" using assms(3) by (auto simp: x_def is_cont_def)
  have y: "y < 64" "unat c2 = 0x80 + y" using assms(4) by (auto simp: y_def is_cont_def)
  have d: "cp div 4096 = a" "cp div 64 mod 64 = x" "cp mod 64 = y"
    unfolding cp_def using split3 [OF x(1) y(1)] by blast+
  have r1: "0x800 \<le> cp" and r3: "\<not> surrogate cp"
    unfolding cp_def a_def x_def y_def by (rule assms(5), rule assms(6))
  have "a * 4096 \<le> 15 * 4096" "x * 64 \<le> 63 * 64"
    using a(1) x(1) by simp_all
  then have r2: "cp < 0x10000"
    unfolding cp_def using y(1) by linarith
  note r = r1 r2 r3
  have "of_nat (0xE0 + a) = b" "of_nat (0x80 + x) = c1" "of_nat (0x80 + y) = c2"
    using a(2) x(2) y(2) byte_of_unat [of b] byte_of_unat [of c1] byte_of_unat [of c2]
    by simp_all
  then have "utf8_encode_cp cp = Some [b, c1, c2]"
    using d r by (simp add: utf8_encode_cp_def)
  then show ?thesis by (simp add: cp_def a_def x_def y_def)
qed

lemma value_encode4:
  assumes "0xF0 \<le> unat b" "unat b \<le> 0xF4" "is_cont c1" "is_cont c2" "is_cont c3"
    and "0x10000 \<le> (unat b - 0xF0) * 262144 + (unat c1 - 0x80) * 4096
                       + (unat c2 - 0x80) * 64 + (unat c3 - 0x80)"
    and "(unat b - 0xF0) * 262144 + (unat c1 - 0x80) * 4096
           + (unat c2 - 0x80) * 64 + (unat c3 - 0x80) < 0x110000"
  shows "utf8_encode_cp ((unat b - 0xF0) * 262144 + (unat c1 - 0x80) * 4096
                           + (unat c2 - 0x80) * 64 + (unat c3 - 0x80))
           = Some [b, c1, c2, c3]"
proof -
  define a x y z where "a = unat b - 0xF0" and "x = unat c1 - 0x80"
    and "y = unat c2 - 0x80" and "z = unat c3 - 0x80"
  define cp where "cp = a * 262144 + x * 4096 + y * 64 + z"
  have a: "a < 5" "unat b = 0xF0 + a" using assms(1,2) by (auto simp: a_def)
  have x: "x < 64" "unat c1 = 0x80 + x" using assms(3) by (auto simp: x_def is_cont_def)
  have y: "y < 64" "unat c2 = 0x80 + y" using assms(4) by (auto simp: y_def is_cont_def)
  have z: "z < 64" "unat c3 = 0x80 + z" using assms(5) by (auto simp: z_def is_cont_def)
  have d: "cp div 262144 = a" "cp div 4096 mod 64 = x" "cp div 64 mod 64 = y" "cp mod 64 = z"
    unfolding cp_def using split4 [OF x(1) y(1) z(1)] by blast+
  have r: "0x10000 \<le> cp" "cp < 0x110000"
    unfolding cp_def a_def x_def y_def z_def by (rule assms(6), rule assms(7))
  have "of_nat (0xF0 + a) = b" "of_nat (0x80 + x) = c1" "of_nat (0x80 + y) = c2"
    "of_nat (0x80 + z) = c3"
    using a(2) x(2) y(2) z(2) byte_of_unat [of b] byte_of_unat [of c1] byte_of_unat [of c2]
      byte_of_unat [of c3]
    by simp_all
  then have "utf8_encode_cp cp = Some [b, c1, c2, c3]"
    using d r by (simp add: utf8_encode_cp_def)
  then show ?thesis by (simp add: cp_def a_def x_def y_def z_def)
qed


lemma value_encode:
  assumes "utf8_width b = Some k" and "length cs = k - 1" and "utf8_value b cs = Some cp"
  shows "utf8_encode_cp cp = Some (b # cs)"
proof -
  have conts: "list_all is_cont cs"
    using assms(3) by (auto simp: utf8_value_def split: if_splits)
  consider (one) "unat b < 0x80" "k = 1"
    | (two) "0xC2 \<le> unat b" "unat b \<le> 0xDF" "k = 2"
    | (three) "0xE0 \<le> unat b" "unat b \<le> 0xEF" "k = 3"
    | (four) "0xF0 \<le> unat b" "unat b \<le> 0xF4" "k = 4"
    using assms(1) by (auto simp: utf8_width_def Let_def split: if_splits)
  then show ?thesis
  proof cases
    case one
    then have cs: "cs = []" using assms(2) by simp
    then have "cp = unat b" using assms(3) by (simp add: utf8_value_def)
    then show ?thesis using value_encode1 [OF one(1)] cs by simp
  next
    case two
    then obtain c1 where cs: "cs = [c1]"
      using assms(2) by (cases cs) auto
    then have "cp = (unat b - 0xC0) * 64 + (unat c1 - 0x80)" and "is_cont c1"
      using assms(3) conts by (simp_all add: utf8_value_def)
    then show ?thesis using value_encode2 [OF two(1,2)] cs by simp
  next
    case three
    then obtain c1 c2 where cs: "cs = [c1, c2]"
      using assms(2) by (cases cs; cases "tl cs") auto
    define v where "v = (unat b - 0xE0) * 4096 + (unat c1 - 0x80) * 64 + (unat c2 - 0x80)"
    have c: "is_cont c1" "is_cont c2" using conts cs by simp_all
    have e: "utf8_value b [c1, c2] = (if 0x800 \<le> v \<and> \<not> surrogate v then Some v else None)"
      using c by (simp add: utf8_value_def Let_def v_def)
    have "utf8_value b [c1, c2] = Some cp"
      using assms(3) cs by simp
    then have "(if 0x800 \<le> v \<and> \<not> surrogate v then Some v else None) = Some cp"
      by (simp only: e)
    then have v: "cp = v" "0x800 \<le> v" "\<not> surrogate v"
      by (simp_all split: if_splits)
    show ?thesis
      using value_encode3 [OF three(1,2) c v(2,3) [unfolded v_def]] cs v(1)
      by (simp add: v_def)
  next
    case four
    then obtain c1 c2 c3 where cs: "cs = [c1, c2, c3]"
      using assms(2) by (cases cs; cases "tl cs"; cases "tl (tl cs)") auto
    define v where "v = (unat b - 0xF0) * 262144 + (unat c1 - 0x80) * 4096
                          + (unat c2 - 0x80) * 64 + (unat c3 - 0x80)"
    have c: "is_cont c1" "is_cont c2" "is_cont c3" using conts cs by simp_all
    have e: "utf8_value b [c1, c2, c3]
               = (if 0x10000 \<le> v \<and> v < 0x110000 then Some v else None)"
      using c by (simp add: utf8_value_def Let_def v_def)
    have "utf8_value b [c1, c2, c3] = Some cp"
      using assms(3) cs by simp
    then have "(if 0x10000 \<le> v \<and> v < 0x110000 then Some v else None) = Some cp"
      by (simp only: e)
    then have v: "cp = v" "0x10000 \<le> v" "v < 0x110000"
      by (simp_all split: if_splits)
    show ?thesis
      using value_encode4 [OF four(1,2) c v(2,3) [unfolded v_def]] cs v(1)
      by (simp add: v_def)
  qed
qed

lemma decode_encode:
  "utf8_decode bs = Some s \<Longrightarrow> utf8_encode s = Some bs"
proof (induction bs arbitrary: s rule: utf8_decode.induct)
  case 1
  then show ?case by (simp add: utf8_decode.simps)
next
  case (2 b bs)
  from "2.prems" obtain k cp s' where k: "utf8_width b = Some k"
    and len: "\<not> length bs < k - 1"
    and v: "utf8_value b (take (k - 1) bs) = Some cp"
    and d: "utf8_decode (drop (k - 1) bs) = Some s'" and s: "s = cp # s'"
    by (auto simp: utf8_decode.simps split: option.splits if_splits)
  have "utf8_encode s' = Some (drop (k - 1) bs)"
    using "2.IH" [OF k len v d] .
  moreover have "utf8_encode_cp cp = Some (b # take (k - 1) bs)"
    using value_encode [OF k _ v] len by simp
  ultimately show ?case by (simp add: s)
qed

lemma decode_step:
  assumes "utf8_width b = Some k" and "utf8_value b cs = Some c" and "length cs = k - 1"
  shows "utf8_decode (b # cs @ rest) = map_option ((#) c) (utf8_decode rest)"
  using assms by (simp add: utf8_decode.simps)

lemma cont_byte:
  assumes "l < 64"
  shows "unat (of_nat (0x80 + l) :: byte) = 0x80 + l" and "is_cont (of_nat (0x80 + l))"
proof -
  show u: "unat (of_nat (0x80 + l) :: byte) = 0x80 + l"
    by (rule unat_byte_of_nat) (use assms in simp)
  show "is_cont (of_nat (0x80 + l))"
    unfolding is_cont_def u using assms by simp
qed

lemma div4096: "(c :: nat) div 4096 = c div 64 div 64"
  by (simp add: div_mult2_eq [symmetric])

lemma div262144: "(c :: nat) div 262144 = c div 4096 div 64"
  by (simp add: div_mult2_eq [symmetric])

lemma enc_dec1:
  assumes "c < 0x80"
  shows "utf8_decode ((of_nat c :: byte) # rest) = map_option ((#) c) (utf8_decode rest)"
proof -
  define b0 :: byte where "b0 = of_nat c"
  have u: "unat b0 = c" unfolding b0_def by (rule unat_byte_of_nat) (use assms in simp)
  have "utf8_width b0 = Some 1" using assms by (simp add: utf8_width_def u)
  moreover have "utf8_value b0 [] = Some c" by (simp add: utf8_value_def u)
  ultimately have "utf8_decode (b0 # [] @ rest) = map_option ((#) c) (utf8_decode rest)"
    by (rule decode_step) simp
  then show ?thesis by (simp add: b0_def)
qed

lemma enc_dec2:
  assumes "0x80 \<le> c" and "c < 0x800"
  shows "utf8_decode ((of_nat (0xC0 + c div 64) :: byte) # of_nat (0x80 + c mod 64) # rest)
           = map_option ((#) c) (utf8_decode rest)"
proof -
  define h l where "h = c div 64" and "l = c mod 64"
  define b0 b1 :: byte where "b0 = of_nat (0xC0 + h)" and "b1 = of_nat (0x80 + l)"
  have c: "h * 64 + l = c" by (simp add: h_def l_def)
  have h: "2 \<le> h" "h < 32" using assms by (simp_all add: h_def)
  have l: "l < 64" by (simp add: l_def)
  have u0: "unat b0 = 0xC0 + h"
    unfolding b0_def by (rule unat_byte_of_nat) (use h in simp)
  have u1: "unat b1 = 0x80 + l" "is_cont b1"
    unfolding b1_def by (rule cont_byte [OF l])+
  have "utf8_width b0 = Some 2"
    using h by (simp add: utf8_width_def u0)
  moreover have "utf8_value b0 [b1] = Some c"
    using u1 c by (simp add: utf8_value_def u0)
  ultimately have "utf8_decode (b0 # [b1] @ rest) = map_option ((#) c) (utf8_decode rest)"
    by (rule decode_step) simp
  then show ?thesis by (simp add: b0_def b1_def h_def l_def)
qed

lemma enc_dec3:
  assumes "0x800 \<le> c" and "c < 0x10000" and "\<not> surrogate c"
  shows "utf8_decode ((of_nat (0xE0 + c div 4096) :: byte) # of_nat (0x80 + c div 64 mod 64)
                        # of_nat (0x80 + c mod 64) # rest)
           = map_option ((#) c) (utf8_decode rest)"
proof -
  define h m l where "h = c div 4096" and "m = c div 64 mod 64" and "l = c mod 64"
  define b0 b1 b2 :: byte where "b0 = of_nat (0xE0 + h)" and "b1 = of_nat (0x80 + m)"
    and "b2 = of_nat (0x80 + l)"
  have "h * 64 + m = c div 64"
    unfolding h_def m_def div4096 by simp
  then have "(h * 64 + m) * 64 + l = c"
    unfolding l_def by simp
  then have c: "h * 4096 + m * 64 + l = c" by simp
  have h: "h < 16" using assms(2) by (simp add: h_def)
  have m: "m < 64" by (simp add: m_def)
  have l: "l < 64" by (simp add: l_def)
  have u0: "unat b0 = 0xE0 + h"
    unfolding b0_def by (rule unat_byte_of_nat) (use h in simp)
  have u1: "unat b1 = 0x80 + m" "is_cont b1"
    unfolding b1_def by (rule cont_byte [OF m])+
  have u2: "unat b2 = 0x80 + l" "is_cont b2"
    unfolding b2_def by (rule cont_byte [OF l])+
  have "utf8_width b0 = Some 3"
    using h by (simp add: utf8_width_def u0)
  moreover have "utf8_value b0 [b1, b2] = Some c"
    using u1 u2 assms(1,3) by (simp add: utf8_value_def u0 c)
  ultimately have "utf8_decode (b0 # [b1, b2] @ rest) = map_option ((#) c) (utf8_decode rest)"
    by (rule decode_step) simp
  then show ?thesis by (simp add: b0_def b1_def b2_def h_def m_def l_def)
qed

lemma enc_dec4:
  assumes "0x10000 \<le> c" and "c < 0x110000"
  shows "utf8_decode ((of_nat (0xF0 + c div 262144) :: byte) # of_nat (0x80 + c div 4096 mod 64)
                        # of_nat (0x80 + c div 64 mod 64) # of_nat (0x80 + c mod 64) # rest)
           = map_option ((#) c) (utf8_decode rest)"
proof -
  define h n m l where "h = c div 262144" and "n = c div 4096 mod 64"
    and "m = c div 64 mod 64" and "l = c mod 64"
  define b0 b1 b2 b3 :: byte where "b0 = of_nat (0xF0 + h)" and "b1 = of_nat (0x80 + n)"
    and "b2 = of_nat (0x80 + m)" and "b3 = of_nat (0x80 + l)"
  have "h * 64 + n = c div 4096"
    unfolding h_def n_def div262144 by simp
  then have "(h * 64 + n) * 64 + m = c div 64"
    unfolding m_def div4096 by simp
  then have "((h * 64 + n) * 64 + m) * 64 + l = c"
    unfolding l_def by simp
  then have c: "h * 262144 + n * 4096 + m * 64 + l = c" by simp
  have h: "h < 5" using assms(2) by (simp add: h_def)
  have n: "n < 64" by (simp add: n_def)
  have m: "m < 64" by (simp add: m_def)
  have l: "l < 64" by (simp add: l_def)
  have u0: "unat b0 = 0xF0 + h"
    unfolding b0_def by (rule unat_byte_of_nat) (use h in simp)
  have u1: "unat b1 = 0x80 + n" "is_cont b1"
    unfolding b1_def by (rule cont_byte [OF n])+
  have u2: "unat b2 = 0x80 + m" "is_cont b2"
    unfolding b2_def by (rule cont_byte [OF m])+
  have u3: "unat b3 = 0x80 + l" "is_cont b3"
    unfolding b3_def by (rule cont_byte [OF l])+
  have "utf8_width b0 = Some 4"
    using h by (simp add: utf8_width_def u0)
  moreover have "utf8_value b0 [b1, b2, b3] = Some c"
    using u1 u2 u3 assms by (simp add: utf8_value_def u0 c)
  ultimately have "utf8_decode (b0 # [b1, b2, b3] @ rest) = map_option ((#) c) (utf8_decode rest)"
    by (rule decode_step) simp
  then show ?thesis by (simp add: b0_def b1_def b2_def b3_def h_def n_def m_def l_def)
qed

lemma encode_cp_decode:
  assumes "utf8_encode_cp c = Some e"
  shows "utf8_decode (e @ rest) = map_option ((#) c) (utf8_decode rest)"
proof -
  consider (one) "c < 0x80" | (two) "0x80 \<le> c" "c < 0x800"
    | (three) "0x800 \<le> c" "c < 0x10000" | (four) "0x10000 \<le> c"
    by linarith
  then show ?thesis
  proof cases
    case one
    then show ?thesis using assms enc_dec1 [OF one, of rest]
      by (auto simp: utf8_encode_cp_def)
  next
    case two
    then show ?thesis using assms enc_dec2 [OF two, of rest]
      by (auto simp: utf8_encode_cp_def)
  next
    case three
    then have s: "\<not> surrogate c" using assms
      by (auto simp: utf8_encode_cp_def split: if_splits)
    show ?thesis using assms three s enc_dec3 [OF three s, of rest]
      by (auto simp: utf8_encode_cp_def)
  next
    case four
    then have u: "c < 0x110000" using assms
      by (auto simp: utf8_encode_cp_def split: if_splits)
    show ?thesis using assms four u enc_dec4 [OF four u, of rest]
      by (auto simp: utf8_encode_cp_def)
  qed
qed

lemma encode_decode:
  "utf8_encode s = Some bs \<Longrightarrow> utf8_decode bs = Some s"
proof (induction s arbitrary: bs)
  case Nil
  then show ?case by (simp add: utf8_decode.simps)
next
  case (Cons c s)
  then obtain e bs' where e: "utf8_encode_cp c = Some e" "utf8_encode s = Some bs'"
    "bs = e @ bs'"
    by (auto split: option.splits)
  then show ?case using Cons.IH [OF e(2)] encode_cp_decode [OF e(1), of bs'] by simp
qed


section \<open>Line endings, and what is written back\<close>

subsection \<open>Line endings\<close>

lemma translate_read_cons:
  "c \<noteq> 13 \<Longrightarrow> translate_read (c # cs) = c # translate_read cs"
  by (cases cs) simp_all

lemma translate_read_cr_lf:
  "translate_read (13 # 10 # cs) = 10 # translate_read cs"
  by simp

lemma translate_read_cr:
  "hd cs \<noteq> 10 \<or> cs = [] \<Longrightarrow> translate_read (13 # cs) = 10 # translate_read cs"
  by (cases cs) auto

lemma translate_read_id: "13 \<notin> set s \<Longrightarrow> translate_read s = s"
  by (induction s) (simp_all add: translate_read_cons)

lemma translate_read_no_cr: "13 \<notin> set (translate_read s)"
  by (induction s rule: translate_read.induct) auto

lemma translate_read_set: "set (translate_read s) \<subseteq> insert 10 (set s)"
  by (induction s rule: translate_read.induct) auto

lemma translate_write_Nil: "translate_write plat [] = []"
  by (simp add: translate_write_def)

lemma translate_write_Cons:
  "translate_write plat (c # cs) = (if c = 10 then linesep plat else [c]) @ translate_write plat cs"
  by (simp add: translate_write_def)

lemma translate_write_posix: "translate_write Posix s = s"
  by (induction s) (simp_all add: translate_write_Nil translate_write_Cons linesep_def)

lemma translate_write_set: "set (translate_write plat s) \<subseteq> insert 10 (insert 13 (set s))"
  by (induction s) (auto simp: translate_write_Nil translate_write_Cons linesep_def split: platform.splits)

lemma translate_read_write:
  "13 \<notin> set u \<Longrightarrow> translate_read (translate_write plat u) = u"
proof (induction u)
  case Nil
  show ?case by (simp add: translate_write_Nil)
next
  case (Cons c u)
  then have ih: "translate_read (translate_write plat u) = u" and c: "c \<noteq> 13" by auto
  show ?case
  proof (cases "c = 10")
    case True
    then show ?thesis
      using ih by (cases plat) (simp_all add: translate_write_Cons linesep_def translate_read_cons)
  next
    case False
    then show ?thesis
      using ih c by (simp add: translate_write_Cons translate_read_cons)
  qed
qed

lemma translate_read_keeps_prefix:
  "13 \<notin> set q \<Longrightarrow> 10 \<notin> set q \<Longrightarrow> prefix q (translate_read s) \<longleftrightarrow> prefix q s"
proof (induction s arbitrary: q rule: translate_read.induct)
  case 1
  show ?case by simp
next
  case (2 c)
  then show ?case by (cases q) auto
next
  case (3 c d cs)
  show ?case
  proof (cases q)
    case Nil
    then show ?thesis by simp
  next
    case (Cons e q')
    then have e: "e \<noteq> 13" "e \<noteq> 10" "13 \<notin> set q'" "10 \<notin> set q'" using 3(4,5) by auto
    show ?thesis
    proof (cases "c = 13")
      case True
      then show ?thesis using e Cons by auto
    next
      case False
      then have "prefix q' (translate_read (d # cs)) \<longleftrightarrow> prefix q' (d # cs)"
        using "3.IH"(3) e by simp
      then show ?thesis using False Cons by simp
    qed
  qed
qed

lemma translate_read_occurrences:
  assumes "13 \<notin> set p" and "10 \<notin> set p" and "p \<noteq> []"
  shows "occurrences p (translate_read s) = occurrences p s"
proof (induction s rule: translate_read.induct)
  case 1
  show ?case by simp
next
  case (2 c)
  have "prefix p [if c = 13 then 10 else c] \<longleftrightarrow> prefix p [c]"
    using translate_read_keeps_prefix [OF assms(1,2), of "[c]"] by simp
  then show ?case using assms(3) by simp
next
  case (3 c d cs)
  obtain e q where p: "p = e # q" using assms(3) by (cases p) auto
  then have e: "e \<noteq> 13" "e \<noteq> 10" using assms(1,2) by auto
  show ?case
  proof (cases "c = 13")
    case True
    show ?thesis
    proof (cases "d = 10")
      case d: True
      then show ?thesis using True 3(1) e p by simp
    next
      case d: False
      then show ?thesis using True 3(2) e p by simp
    qed
  next
    case False
    have "prefix p (c # translate_read (d # cs)) \<longleftrightarrow> prefix p (c # d # cs)"
      using translate_read_keeps_prefix [OF assms(1,2), of "c # d # cs"] False by simp
    then show ?thesis using False 3(3) by simp
  qed
qed

subsection \<open>What can be encoded\<close>

lemma encode_some_iff:
  "(\<exists>bs. utf8_encode s = Some bs) \<longleftrightarrow> (\<forall>c \<in> set s. \<exists>e. utf8_encode_cp c = Some e)"
  by (induction s) (auto split: option.splits)

lemma ascii_encodable: "c < 0x80 \<Longrightarrow> \<exists>e. utf8_encode_cp c = Some e"
  by (simp add: utf8_encode_cp_def)

lemma decoded_encodable:
  assumes "utf8_decode bs = Some s"
  shows "\<forall>c \<in> set s. \<exists>e. utf8_encode_cp c = Some e"
  using decode_encode [OF assms] encode_some_iff [of s] by blast

lemma lit_scan_set:
  "set (re_scan (map Lit (a # x)) r s) \<subseteq> set r \<union> set s"
proof (induction s rule: lit_scan_induct [where a = a and x = x])
  case Nil
  show ?case by (simp add: scan_nil_cons)
next
  case (Hit t)
  have "re_scan (map Lit (a # x)) r ((a # x) @ t) = r @ re_scan (map Lit (a # x)) r t"
    by (rule scan_hit) simp
  then show ?case using Hit by auto
next
  case (Miss c cs)
  then show ?case by (auto simp: scan_miss_cons)
qed

lemma replacement_ascii: "\<forall>c \<in> set replacement_literal. c < 0x80 \<and> c \<noteq> 13"
  by (simp add: replacement_literal_def str_def)

lemma fixed_text_set: "set (fixed_text s) \<subseteq> set replacement_literal \<union> insert 10 (set s)"
proof -
  obtain x where x: "target_literal = 36 # x" using target_shape by blast
  have "set (fixed_text s) \<subseteq> set replacement_literal \<union> set (translate_read s)"
    unfolding fixed_text_def x by (rule lit_scan_set)
  then show ?thesis using translate_read_set [of s] by blast
qed

lemma fixed_text_no_cr: "13 \<notin> set (fixed_text s)"
proof -
  obtain x where x: "target_literal = 36 # x" using target_shape by blast
  have "set (fixed_text s) \<subseteq> set replacement_literal \<union> set (translate_read s)"
    unfolding fixed_text_def x by (rule lit_scan_set)
  then show ?thesis using translate_read_no_cr [of s] replacement_ascii by blast
qed

lemma written_encodable:
  assumes "utf8_decode bs = Some s"
  shows "\<exists>out. utf8_encode (translate_write plat (fixed_text s)) = Some out"
proof -
  have "\<exists>e. utf8_encode_cp c = Some e" if "c \<in> set (translate_write plat (fixed_text s))" for c
  proof -
    from that have "c = 10 \<or> c = 13 \<or> c \<in> set replacement_literal \<or> c \<in> set s"
      using translate_write_set [of plat "fixed_text s"] fixed_text_set [of s] by blast
    then show ?thesis
      using ascii_encodable [of c] replacement_ascii decoded_encodable [OF assms] by auto
  qed
  then show ?thesis using encode_some_iff by blast
qed

lemma fixed_text_fixed: "fixed_text (translate_write plat (fixed_text s)) = fixed_text s"
proof -
  obtain out where "substitute (translate_read s) = Inr out" "occurrences target_literal out = 0"
    using substitute_props [of "translate_read s"] by blast
  then have o: "occurrences target_literal (fixed_text s) = 0"
    by (simp add: substitute_eq fixed_text_def)
  have "translate_read (translate_write plat (fixed_text s)) = fixed_text s"
    by (rule translate_read_write [OF fixed_text_no_cr])
  then have "fixed_text (translate_write plat (fixed_text s))
      = re_scan (map Lit target_literal) replacement_literal (fixed_text s)"
    by (simp add: fixed_text_def)
  also have "\<dots> = fixed_text s" by (rule scan_fixed [OF o])
  finally show ?thesis .
qed

lemma fixed_text_no_match:
  assumes "occurrences target_literal s = 0"
  shows "fixed_text s = translate_read s"
proof -
  obtain x where x: "target_literal = 36 # x" "13 \<notin> set x" "10 \<notin> set x"
    using target_shape by blast
  have "occurrences target_literal (translate_read s) = occurrences target_literal s"
    by (rule translate_read_occurrences) (simp_all add: x)
  then show ?thesis using assms scan_fixed by (simp add: fixed_text_def)
qed

subsection \<open>Runs without a match, and second runs\<close>

lemma run_no_match:
  assumes "files w target_path = Some (File f)" and "readable f" and "writable f"
    and "utf8_decode (data f) = Some s" and "occurrences target_literal s = 0"
  shows "fst (run plat w) = Inr ()
       \<and> (\<exists>bs. utf8_encode (translate_write plat (translate_read s)) = Some bs
                \<and> files (snd (run plat w)) = (files w)(target_path \<mapsto> File (f\<lparr>data := bs\<rparr>)))
       \<and> (translate_write plat (translate_read s) = s \<longrightarrow> files (snd (run plat w)) = files w)
       \<and> (plat = Posix \<and> 13 \<notin> set s \<longrightarrow> translate_write plat (translate_read s) = s)"
proof -
  have ft: "fixed_text s = translate_read s"
    by (rule fixed_text_no_match [OF assms(5)])
  obtain bs where bs: "utf8_encode (translate_write plat (fixed_text s)) = Some bs"
    using written_encodable [OF assms(4)] by blast
  have r: "run plat w
      = (Inr (), print_fixed (w\<lparr>files := (files w)(target_path \<mapsto> File (f\<lparr>data := bs\<rparr>))\<rparr>))"
    by (rule run_ok [OF assms(1-4) bs])
  have fs: "files (snd (run plat w)) = (files w)(target_path \<mapsto> File (f\<lparr>data := bs\<rparr>))"
    by (simp add: r print_fixed_def)
  have same: "files (snd (run plat w)) = files w" if "translate_write plat (translate_read s) = s"
  proof -
    have "utf8_encode s = Some (data f)" by (rule decode_encode [OF assms(4)])
    then have "bs = data f" using bs ft that by simp
    then have "f\<lparr>data := bs\<rparr> = f" by simp
    then show ?thesis using fs assms(1) by (simp add: fun_upd_idem)
  qed
  have "translate_write plat (translate_read s) = s" if "plat = Posix" "13 \<notin> set s"
    using that by (simp add: translate_write_posix translate_read_id)
  then show ?thesis using r fs bs ft same by auto
qed

lemma run_again_unchanged:
  assumes "run plat w = (r, w)"
  shows "fst (run plat (snd (run plat w))) = fst (run plat w)
       \<and> files (snd (run plat (snd (run plat w)))) = files (snd (run plat w))"
  using assms by simp

lemma run_again:
  "fst (run plat (snd (run plat w))) = fst (run plat w)
   \<and> files (snd (run plat (snd (run plat w)))) = files (snd (run plat w))"
proof (cases "files w target_path")
  case None
  then show ?thesis using run_again_unchanged [OF run_missing] by blast
next
  case (Some n)
  show ?thesis
  proof (cases n)
    case Directory
    then show ?thesis using Some run_again_unchanged [OF run_directory] by blast
  next
    case (File f)
    then have f: "files w target_path = Some (File f)" using Some by simp
    show ?thesis
    proof (cases "readable f \<and> writable f \<and> utf8_decode (data f) \<noteq> None")
      case False
      then have "\<exists>r. run plat w = (r, w)"
        unfolding run_file [OF f] by (auto split: option.splits)
      then show ?thesis using run_again_unchanged by blast
    next
      case True
      then obtain s where s: "utf8_decode (data f) = Some s" and rd: "readable f"
        and wr: "writable f" by auto
      obtain bs where bs: "utf8_encode (translate_write plat (fixed_text s)) = Some bs"
        using written_encodable [OF s] by blast
      define f1 where "f1 = f\<lparr>data := bs\<rparr>"
      define w1 where "w1 = print_fixed (w\<lparr>files := (files w)(target_path \<mapsto> File f1)\<rparr>)"
      have r1: "run plat w = (Inr (), w1)"
        unfolding w1_def f1_def by (rule run_ok [OF f rd wr s bs])
      have g: "files w1 target_path = Some (File f1)" "readable f1" "writable f1"
        using rd wr by (simp_all add: w1_def f1_def print_fixed_def)
      have d: "utf8_decode (data f1) = Some (translate_write plat (fixed_text s))"
        using encode_decode [OF bs] by (simp add: f1_def)
      have e: "utf8_encode (translate_write plat (fixed_text (translate_write plat (fixed_text s))))
                 = Some bs"
        using bs by (simp add: fixed_text_fixed)
      have "run plat w1
          = (Inr (), print_fixed (w1\<lparr>files := (files w1)(target_path \<mapsto> File (f1\<lparr>data := bs\<rparr>))\<rparr>))"
        by (rule run_ok [OF g d e])
      moreover have "f1\<lparr>data := bs\<rparr> = f1" by (simp add: f1_def)
      ultimately have "fst (run plat w1) = Inr ()" "files (snd (run plat w1)) = files w1"
        using g(1) by (simp_all add: print_fixed_def fun_upd_idem)
      then show ?thesis by (simp add: r1)
    qed
  qed
qed


subsection \<open>ASCII files, and the text that is written back\<close>

lemma ascii_decode:
  "\<forall>c \<in> set cs. (of_char c :: nat) < 0x80 \<Longrightarrow> utf8_decode (ascii_bytes cs) = Some (str cs)"
proof (induction cs)
  case Nil
  show ?case by (simp add: ascii_bytes_def str_def utf8_decode.simps)
next
  case (Cons c cs)
  then have c: "(of_char c :: nat) < 0x80" and ih: "utf8_decode (ascii_bytes cs) = Some (str cs)"
    by simp_all
  have "utf8_decode ((of_nat (of_char c) :: byte) # ascii_bytes cs)
      = map_option ((#) (of_char c)) (utf8_decode (ascii_bytes cs))"
    by (rule enc_dec1 [OF c])
  then show ?case using ih by (simp add: ascii_bytes_def str_def of_nat_of_char)
qed

lemma ascii_encode:
  "\<forall>c \<in> set cs. (of_char c :: nat) < 0x80 \<Longrightarrow> utf8_encode (str cs) = Some (ascii_bytes cs)"
  by (rule decode_encode [OF ascii_decode])

lemma translate_write_keeps_prefix:
  "13 \<notin> set q \<Longrightarrow> 10 \<notin> set q \<Longrightarrow> prefix q (translate_write plat u) \<longleftrightarrow> prefix q u"
proof (induction u arbitrary: q)
  case Nil
  show ?case by (simp add: translate_write_Nil)
next
  case (Cons c u)
  show ?case
  proof (cases q)
    case Nil
    then show ?thesis by simp
  next
    case q: (Cons e q')
    then have e: "e \<noteq> 13" "e \<noteq> 10" "13 \<notin> set q'" "10 \<notin> set q'" using Cons.prems by auto
    show ?thesis
    proof (cases "c = 10")
      case True
      then show ?thesis using e q
        by (cases plat) (simp_all add: translate_write_Cons linesep_def)
    next
      case False
      then show ?thesis using e q Cons.IH [OF e(3,4)]
        by (simp add: translate_write_Cons)
    qed
  qed
qed

lemma translate_write_occurrences:
  assumes "13 \<notin> set p" and "10 \<notin> set p" and "p \<noteq> []"
  shows "occurrences p (translate_write plat u) = occurrences p u"
proof (induction u)
  case Nil
  show ?case by (simp add: translate_write_Nil)
next
  case (Cons c u)
  obtain e q where p: "p = e # q" using assms(3) by (cases p) auto
  then have e: "e \<noteq> 13" "e \<noteq> 10" using assms(1,2) by auto
  show ?case
  proof (cases "c = 10")
    case True
    then show ?thesis using e p Cons
      by (cases plat) (simp_all add: translate_write_Cons linesep_def)
  next
    case False
    have "prefix p (c # translate_write plat u) \<longleftrightarrow> prefix p (c # u)"
      using translate_write_keeps_prefix [OF assms(1,2), of plat "c # u"] False
      by (simp add: translate_write_Cons)
    then show ?thesis using False Cons by (simp add: translate_write_Cons)
  qed
qed

lemma run_world_with:
  assumes "readable f" and "writable f" and "utf8_decode (data f) = Some s"
    and "utf8_encode (translate_write plat (fixed_text s)) = Some out"
  shows "fst (run plat (world_with f)) = Inr ()
       \<and> target_bytes (snd (run plat (world_with f))) = Some out"
proof -
  have f: "files (world_with f) target_path = Some (File f)"
    by (simp add: world_with_def)
  show ?thesis
    unfolding run_ok [OF f assms] by (simp add: target_bytes_def print_fixed_def)
qed

lemma run_world_of:
  assumes "utf8_decode bs = Some s"
    and "utf8_encode (translate_write plat (fixed_text s)) = Some out"
  shows "fst (run plat (world_of bs)) = Inr ()
       \<and> target_bytes (snd (run plat (world_of bs))) = Some out"
  unfolding world_of_def using assms by (intro run_world_with) simp_all

lemma fixed_text_props:
  "\<exists>gaps. occurrences target_literal (fixed_text s) = 0
     \<and> occurrences replacement_literal (fixed_text s)
          = occurrences target_literal s + occurrences replacement_literal s
     \<and> length gaps = Suc (occurrences target_literal s)
     \<and> translate_read s = join target_literal gaps
     \<and> fixed_text s = join replacement_literal gaps"
proof -
  obtain x where x: "target_literal = 36 # x" "13 \<notin> set x" "10 \<notin> set x"
    using target_shape by blast
  obtain y where y: "replacement_literal = 36 # y" "13 \<notin> set y" "10 \<notin> set y"
    using replacement_shape by blast
  have t: "occurrences target_literal (translate_read s) = occurrences target_literal s"
    by (rule translate_read_occurrences) (simp_all add: x)
  have r: "occurrences replacement_literal (translate_read s) = occurrences replacement_literal s"
    by (rule translate_read_occurrences) (simp_all add: y)
  obtain out gaps where o: "substitute (translate_read s) = Inr out"
    "occurrences target_literal out = 0"
    "occurrences replacement_literal out
       = occurrences target_literal (translate_read s)
         + occurrences replacement_literal (translate_read s)"
    "length gaps = Suc (occurrences target_literal (translate_read s))"
    "translate_read s = join target_literal gaps" "out = join replacement_literal gaps"
    using substitute_props [of "translate_read s"] by blast
  have "out = fixed_text s" using o(1) by (simp add: substitute_eq fixed_text_def)
  then show ?thesis using o t r by auto
qed

lemma ex_revenue_fixed:
  "fixed_text (str ''Revenue: ${(goal as RevenueGoal).currentAmount}'')
     = str ''Revenue: ${progress.currentValue.toFixed(2)}''"
  by (simp add: fixed_text_def re_scan.simps target_literal_def replacement_literal_def str_def)

lemma ex_twice_fixed:
  "fixed_text (str ''${progress.currentValue.toFixed(2)}${(goal as RevenueGoal).currentAmount}'')
     = str ''${progress.currentValue.toFixed(2)}${progress.currentValue.toFixed(2)}''"
  by (simp add: fixed_text_def re_scan.simps target_literal_def replacement_literal_def str_def)

lemma ex_crlf_fixed:
  "fixed_text (str (''a'' @ [CHR 0x0D, CHR 0x0A] @ ''${(goal as RevenueGoal).currentAmount}''))
     = str (''a'' @ [CHR 0x0A] @ ''${progress.currentValue.toFixed(2)}'')"
  by (simp add: fixed_text_def re_scan.simps target_literal_def replacement_literal_def str_def)


section \<open>Claims about the substitution\<close>

text \<open>
  C10: for an input with \<open>N\<close> occurrences of the searched expression, the length of the
  output is the length of the input plus \<open>N\<close> times (35 - 38), the replacement having 35
  characters and the searched expression 38; so the output is never longer than the
  input.
\<close>

theorem substitute_length:
  "\<exists>out. substitute s = Inr out
     \<and> int (length out) = int (length s) + int (occurrences target_literal s) * (35 - 38)
     \<and> length replacement_literal = 35 \<and> length target_literal = 38
     \<and> length out \<le> length s"
proof -
  define out where "out = re_scan (map Lit target_literal) replacement_literal s"
  define n where "n = occurrences target_literal s"
  obtain x where x: "target_literal = 36 # x" "36 \<notin> set x"
    using target_shape by blast
  have "length (re_scan (map Lit (36 # x)) replacement_literal s)
          + occurrences (36 # x) s * length (36 # x)
          = length s + occurrences (36 # x) s * length replacement_literal"
    by (rule scan_length [OF x(2)])
  then have "length out + n * length target_literal = length s + n * length replacement_literal"
    unfolding out_def n_def x(1) .
  then have eq: "length out + n * 38 = length s + n * 35"
    using literal_lengths by simp
  have "int (length out) = int (length s) + int n * (35 - 38)"
    using eq by simp
  moreover have "length out \<le> length s"
    using eq by simp
  moreover have "substitute s = Inr out"
    by (simp add: substitute_eq out_def)
  ultimately show ?thesis using literal_lengths unfolding n_def by blast
qed

text \<open>
  C4: the pattern of the script matches at the start of a text exactly when the text
  starts with the expression \<open>${(goal as RevenueGoal).currentAmount}\<close>, every special
  character of it being escaped; the replacement template stands for its own characters,
  none of them being read as an escape or a group reference; and the substitution puts
  these characters, as they are, in the place of every match: the input is pieces with
  the searched expression between them, one piece more than there are occurrences, and
  the result is the same pieces with the characters of \<open>new_pattern\<close> between them.
\<close>

theorem pattern_is_literal:
  "(\<exists>p. re_parse old_pattern = Some p
       \<and> (\<forall>s rest. (re_match p s = Some rest) = (s = target_literal @ rest)))
   \<and> parse_template new_pattern = Some (str new_pattern)
   \<and> str new_pattern = replacement_literal
   \<and> (\<forall>s. \<exists>gaps. length gaps = Suc (occurrences target_literal s)
            \<and> s = join target_literal gaps
            \<and> substitute s = Inr (join (str new_pattern) gaps))"
proof -
  have "(re_match (map Lit target_literal) s = Some rest) = (s = target_literal @ rest)" for s rest
    by (auto simp: re_match_lits prefix_def)
  moreover have n: "str new_pattern = replacement_literal"
    by (simp add: new_pattern_def replacement_literal_def)
  moreover have "\<exists>gaps. length gaps = Suc (occurrences target_literal s)
            \<and> s = join target_literal gaps
            \<and> substitute s = Inr (join (str new_pattern) gaps)" for s
    using substitute_props [of s] unfolding n by blast
  ultimately show ?thesis using parse_old parse_new by simp
qed


section \<open>Claims about the run of the script\<close>

text \<open>
  C1, as amended: on a target file that may be read and written and whose bytes decode
  to a text with \<open>N\<close> occurrences of the searched expression, the run succeeds, and the
  text of the file afterwards has no occurrence of the searched expression. The text as
  read, with its line endings turned into \<open>\n\<close>, is \<open>N + 1\<close> pieces with the searched
  expression between each two neighbours; the text afterwards is the same pieces with
  the replacement between them, every \<open>\n\<close> written as the line separator of the
  platform. It has \<open>N\<close> occurrences of the replacement more than the text before had.
  Where the line endings are not touched, as on a platform with the separator \<open>\n\<close>
  for a text without carriage return, the text before is these pieces around the
  searched expression and the text afterwards the same pieces around the replacement.
\<close>

theorem apply_replaces_all:
  assumes "files w target_path = Some (File f)" and "readable f" and "writable f"
    and "utf8_decode (data f) = Some s"
  shows "\<exists>bs t gaps. fst (run plat w) = Inr ()
     \<and> target_bytes (snd (run plat w)) = Some bs \<and> utf8_decode bs = Some t
     \<and> occurrences target_literal t = 0
     \<and> occurrences replacement_literal t
          = occurrences target_literal s + occurrences replacement_literal s
     \<and> length gaps = Suc (occurrences target_literal s)
     \<and> translate_read s = join target_literal gaps
     \<and> t = translate_write plat (join replacement_literal gaps)
     \<and> (plat = Posix \<and> 13 \<notin> set s \<longrightarrow>
           s = join target_literal gaps \<and> t = join replacement_literal gaps)"
proof -
  obtain x where x: "target_literal = 36 # x" "13 \<notin> set x" "10 \<notin> set x"
    using target_shape by blast
  obtain y where y: "replacement_literal = 36 # y" "13 \<notin> set y" "10 \<notin> set y"
    using replacement_shape by blast
  obtain gaps where g: "occurrences target_literal (fixed_text s) = 0"
    "occurrences replacement_literal (fixed_text s)
       = occurrences target_literal s + occurrences replacement_literal s"
    "length gaps = Suc (occurrences target_literal s)"
    "translate_read s = join target_literal gaps"
    "fixed_text s = join replacement_literal gaps"
    using fixed_text_props [of s] by blast
  define t where "t = translate_write plat (fixed_text s)"
  obtain bs where bs: "utf8_encode t = Some bs"
    unfolding t_def using written_encodable [OF assms(4)] by blast
  have r: "run plat w
      = (Inr (), print_fixed (w\<lparr>files := (files w)(target_path \<mapsto> File (f\<lparr>data := bs\<rparr>))\<rparr>))"
    by (rule run_ok [OF assms bs [unfolded t_def]])
  have 1: "fst (run plat w) = Inr ()" and 2: "target_bytes (snd (run plat w)) = Some bs"
    by (simp_all add: r target_bytes_def print_fixed_def)
  have 3: "utf8_decode bs = Some t" by (rule encode_decode [OF bs])
  have "occurrences target_literal t = occurrences target_literal (fixed_text s)"
    unfolding t_def by (rule translate_write_occurrences) (simp_all add: x)
  then have 4: "occurrences target_literal t = 0" using g(1) by simp
  have "occurrences replacement_literal t = occurrences replacement_literal (fixed_text s)"
    unfolding t_def by (rule translate_write_occurrences) (simp_all add: y)
  then have 5: "occurrences replacement_literal t
      = occurrences target_literal s + occurrences replacement_literal s"
    using g(2) by simp
  have 6: "t = translate_write plat (join replacement_literal gaps)"
    by (simp add: t_def g(5))
  have 7: "s = join target_literal gaps \<and> t = join replacement_literal gaps"
    if "plat = Posix" "13 \<notin> set s"
    using that g(4,5) by (simp add: t_def translate_write_posix translate_read_id)
  show ?thesis using 1 2 3 4 5 6 7 g(3,4) by blast
qed

theorem apply_replaces_all_witness:
  "utf8_decode (data \<lparr>data = ascii_bytes ''Revenue: ${(goal as RevenueGoal).currentAmount}'',
                        readable = True, writable = True\<rparr>)
     = Some (str ''Revenue: ${(goal as RevenueGoal).currentAmount}'')
   \<and> fst (run Posix (world_of (ascii_bytes ''Revenue: ${(goal as RevenueGoal).currentAmount}'')))
       = Inr ()
   \<and> target_bytes
         (snd (run Posix (world_of (ascii_bytes ''Revenue: ${(goal as RevenueGoal).currentAmount}''))))
       = Some (ascii_bytes ''Revenue: ${progress.currentValue.toFixed(2)}'')
   \<and> occurrences target_literal (str ''Revenue: ${progress.currentValue.toFixed(2)}'') = 0
   \<and> occurrences replacement_literal (str ''Revenue: ${progress.currentValue.toFixed(2)}'') = 1"
proof -
  let ?b = "ascii_bytes ''Revenue: ${(goal as RevenueGoal).currentAmount}''"
  let ?s = "str ''Revenue: ${(goal as RevenueGoal).currentAmount}''"
  let ?f = "\<lparr>data = ?b, readable = True, writable = True\<rparr>"
  have d: "utf8_decode (data ?f) = Some ?s"
    using ascii_decode [of "''Revenue: ${(goal as RevenueGoal).currentAmount}''"] by simp
  have e: "utf8_encode (translate_write Posix (fixed_text ?s))
             = Some (ascii_bytes ''Revenue: ${progress.currentValue.toFixed(2)}'')"
    unfolding ex_revenue_fixed translate_write_posix
    by (rule ascii_encode) simp
  have r: "fst (run Posix (world_of ?b)) = Inr ()
         \<and> target_bytes (snd (run Posix (world_of ?b)))
             = Some (ascii_bytes ''Revenue: ${progress.currentValue.toFixed(2)}'')"
    using d e by (intro run_world_of) simp_all
  have d': "utf8_decode (ascii_bytes ''Revenue: ${progress.currentValue.toFixed(2)}'')
              = Some (str ''Revenue: ${progress.currentValue.toFixed(2)}'')"
    by (rule ascii_decode) simp
  have n: "occurrences target_literal ?s = 1" "occurrences replacement_literal ?s = 0"
    by (simp_all add: target_literal_def replacement_literal_def str_def)
  have f: "files (world_of ?b) target_path = Some (File ?f)"
    by (simp add: world_of_def world_with_def)
  from apply_replaces_all [OF f _ _ d, of Posix] r d' n d show ?thesis
    by auto
qed

text \<open>
  C1 as stated fails in two ways. A file that holds the replacement already, followed
  by one occurrence of the searched expression, has \<open>N = 1\<close> and afterwards two
  occurrences of the replacement. And in a file with a Windows line ending before the
  match, patched on a POSIX platform, characters outside the match change: \<open>\r\n\<close>
  becomes \<open>\n\<close>.
\<close>

theorem apply_counterexample:
  "utf8_decode (ascii_bytes ''${progress.currentValue.toFixed(2)}${(goal as RevenueGoal).currentAmount}'')
     = Some (str ''${progress.currentValue.toFixed(2)}${(goal as RevenueGoal).currentAmount}'')
   \<and> occurrences target_literal
        (str ''${progress.currentValue.toFixed(2)}${(goal as RevenueGoal).currentAmount}'') = 1
   \<and> fst (run Posix (world_of
         (ascii_bytes ''${progress.currentValue.toFixed(2)}${(goal as RevenueGoal).currentAmount}'')))
       = Inr ()
   \<and> target_bytes (snd (run Posix (world_of
         (ascii_bytes ''${progress.currentValue.toFixed(2)}${(goal as RevenueGoal).currentAmount}''))))
       = Some (ascii_bytes ''${progress.currentValue.toFixed(2)}${progress.currentValue.toFixed(2)}'')
   \<and> utf8_decode (ascii_bytes ''${progress.currentValue.toFixed(2)}${progress.currentValue.toFixed(2)}'')
       = Some (str ''${progress.currentValue.toFixed(2)}${progress.currentValue.toFixed(2)}'')
   \<and> occurrences replacement_literal
        (str ''${progress.currentValue.toFixed(2)}${progress.currentValue.toFixed(2)}'') = 2
   \<and> fst (run Posix (world_of
         (ascii_bytes (''a'' @ [CHR 0x0D, CHR 0x0A] @ ''${(goal as RevenueGoal).currentAmount}''))))
       = Inr ()
   \<and> target_bytes (snd (run Posix (world_of
         (ascii_bytes (''a'' @ [CHR 0x0D, CHR 0x0A] @ ''${(goal as RevenueGoal).currentAmount}'')))))
       = Some (ascii_bytes (''a'' @ [CHR 0x0A] @ ''${progress.currentValue.toFixed(2)}''))"
proof -
  let ?i = "''${progress.currentValue.toFixed(2)}${(goal as RevenueGoal).currentAmount}''"
  let ?o = "''${progress.currentValue.toFixed(2)}${progress.currentValue.toFixed(2)}''"
  let ?j = "''a'' @ [CHR 0x0D, CHR 0x0A] @ ''${(goal as RevenueGoal).currentAmount}''"
  let ?p = "''a'' @ [CHR 0x0A] @ ''${progress.currentValue.toFixed(2)}''"
  have di: "utf8_decode (ascii_bytes ?i) = Some (str ?i)" by (rule ascii_decode) simp
  have do: "utf8_decode (ascii_bytes ?o) = Some (str ?o)" by (rule ascii_decode) simp
  have dj: "utf8_decode (ascii_bytes ?j) = Some (str ?j)" by (rule ascii_decode) simp
  have eo: "utf8_encode (translate_write Posix (fixed_text (str ?i))) = Some (ascii_bytes ?o)"
    unfolding ex_twice_fixed translate_write_posix by (rule ascii_encode) simp
  have ep: "utf8_encode (translate_write Posix (fixed_text (str ?j))) = Some (ascii_bytes ?p)"
    unfolding ex_crlf_fixed translate_write_posix by (rule ascii_encode) simp
  have 1: "occurrences target_literal (str ?i) = 1"
    by (simp add: target_literal_def str_def)
  have 2: "occurrences replacement_literal (str ?o) = 2"
    by (simp add: replacement_literal_def str_def)
  show ?thesis
    using di do 1 2 run_world_of [OF di eo] run_world_of [OF dj ep] by simp
qed


text \<open>
  C5: where the target file is missing, unreadable or unwritable, the script ends with
  the exception of the failing \<open>open\<close>, nothing having been caught or tried again: the
  world is as it was, the interpreter reports the exception on standard error and the
  exit status is 1.
\<close>

theorem file_access_error_is_fatal:
  assumes "files w target_path = None
           \<or> (\<exists>f. files w target_path = Some (File f) \<and> (\<not> readable f \<or> \<not> writable f))"
  shows "\<exists>e. run plat w = (Inl e, w)
           \<and> main plat w = (1, w\<lparr>stderr := stderr w @ [e]\<rparr>)
           \<and> (files w target_path = None \<longrightarrow> e = FileNotFoundError)
           \<and> (\<forall>f. files w target_path = Some (File f) \<and> \<not> readable f \<longrightarrow> e = PermissionError)
           \<and> (\<forall>f. files w target_path = Some (File f) \<and> readable f \<and> \<not> writable f
                    \<and> utf8_decode (data f) \<noteq> None \<longrightarrow> e = PermissionError)"
proof -
  consider (missing) "files w target_path = None"
    | (unreadable) f where "files w target_path = Some (File f)" "\<not> readable f"
    | (unwritable) f where "files w target_path = Some (File f)" "readable f" "\<not> writable f"
    using assms by auto
  then show ?thesis
  proof cases
    case missing
    then have "run plat w = (Inl FileNotFoundError, w)"
      by (simp add: run_read_failure read_file_missing)
    then show ?thesis using missing main_failure by fastforce
  next
    case unreadable
    then have "run plat w = (Inl PermissionError, w)"
      by (simp add: run_read_failure read_file_unreadable)
    then show ?thesis using unreadable main_failure by fastforce
  next
    case unwritable
    then obtain e where e: "run plat w = (Inl e, w)"
      "readable f \<and> utf8_decode (data f) \<noteq> None \<longrightarrow> e = PermissionError"
      using run_unwritable by blast
    then show ?thesis using unwritable main_failure by fastforce
  qed
qed

theorem file_access_error_is_fatal_witness:
  "files (world_with \<lparr>data = [0x78], readable = True, writable = False\<rparr>) target_path
     = Some (File \<lparr>data = [0x78], readable = True, writable = False\<rparr>)
   \<and> fst (run Posix (world_with \<lparr>data = [0x78], readable = True, writable = False\<rparr>))
       = Inl PermissionError
   \<and> fst (main Posix (world_with \<lparr>data = [0x78], readable = True, writable = False\<rparr>)) = 1"
proof -
  let ?f = "\<lparr>data = [0x78 :: byte], readable = True, writable = False\<rparr>"
  have f: "files (world_with ?f) target_path = Some (File ?f)"
    by (simp add: world_with_def)
  have d: "utf8_decode (data ?f) \<noteq> None"
    by (simp add: utf8_decode.simps utf8_width_def utf8_value_def)
  from f have "files (world_with ?f) target_path = None
           \<or> (\<exists>g. files (world_with ?f) target_path = Some (File g) \<and> (\<not> readable g \<or> \<not> writable g))"
    by simp
  from file_access_error_is_fatal [OF this, of Posix] f d show ?thesis
    by auto
qed

text \<open>
  C6: every run that succeeds writes the one message \<open>Fixed!\<close> and a newline to standard
  output, whatever the number of matches; the concrete run below has none.
\<close>

theorem confirmation_on_success:
  "fst (run plat w) = Inr () \<Longrightarrow>
     stdout (snd (run plat w)) = stdout w @ str ''Fixed!'' @ [10]"
  by (auto simp: run_def print_fixed_def confirmation_def write_file_def open_write_def
        append_bytes_def split: sum.splits option.splits node.splits if_splits prod.splits)

theorem confirmation_on_success_witness:
  "fst (run Posix (world_of [0x6F, 0x6B])) = Inr ()
   \<and> occurrences target_literal [111, 107] = 0
   \<and> stdout (snd (run Posix (world_of [0x6F, 0x6B]))) = str ''Fixed!'' @ [10]"
proof -
  have "run Posix (world_of [0x6F, 0x6B])
      = (Inr (), print_fixed ((world_of [0x6F, 0x6B])\<lparr>files := (files (world_of [0x6F, 0x6B]))
            (target_path \<mapsto> File (\<lparr>data = [0x6F, 0x6B], readable = True, writable = True\<rparr>\<lparr>data := [0x6F, 0x6B]\<rparr>))\<rparr>))"
    by (rule run_ok [where s = "[111, 107]"])
       (simp_all add: world_of_def world_with_def utf8_decode.simps utf8_width_def utf8_value_def
          fixed_text_def re_scan.simps target_literal_def str_def translate_write_def
          utf8_encode_cp_def)
  then have ok: "fst (run Posix (world_of [0x6F, 0x6B])) = Inr ()" by simp
  have "occurrences target_literal [111, 107] = 0"
    by (simp add: target_literal_def str_def)
  then show ?thesis
    using ok confirmation_on_success [OF ok] by (simp add: world_of_def world_with_def)
qed

text \<open>
  C7: on an empty target file that may be read and written, the run succeeds and the
  file is empty afterwards, as it was.
\<close>

theorem empty_file_stays_empty:
  assumes "files w target_path = Some (File f)" and "data f = []"
    and "readable f" and "writable f"
  shows "fst (run plat w) = Inr () \<and> files (snd (run plat w)) = files w
       \<and> target_bytes (snd (run plat w)) = Some []"
proof -
  have "f\<lparr>data := []\<rparr> = f" using assms(2) by simp
  then have "(files w)(target_path \<mapsto> File (f\<lparr>data := []\<rparr>)) = files w"
    using assms(1) by (simp add: fun_upd_idem)
  moreover have "run plat w
      = (Inr (), print_fixed (w\<lparr>files := (files w)(target_path \<mapsto> File (f\<lparr>data := []\<rparr>))\<rparr>))"
    by (rule run_ok [OF assms(1,3,4), where s = "[]"])
       (simp_all add: assms(2) utf8_decode.simps scan_target_nil translate_write_def)
  ultimately show ?thesis using assms(1,2) by (simp add: print_fixed_def target_bytes_def)
qed

theorem empty_file_stays_empty_witness:
  "fst (run Windows (world_of [])) = Inr ()
   \<and> target_bytes (snd (run Windows (world_of []))) = Some []"
  using empty_file_stays_empty
    [of "world_of []" "\<lparr>data = [], readable = True, writable = True\<rparr>" Windows]
  by (simp add: world_of_def world_with_def)

text \<open>
  C8, as amended: two runs on the same platform, on worlds that agree on the target
  file, its bytes and what the process may do with it, end in the same way, leave the
  same target file and write the same to standard output; nothing else of the world is
  looked at.
\<close>

theorem run_deterministic:
  assumes "files w1 target_path = files w2 target_path"
  shows "fst (run plat w1) = fst (run plat w2)
       \<and> files (snd (run plat w1)) target_path = files (snd (run plat w2)) target_path
       \<and> (\<exists>out. stdout (snd (run plat w1)) = stdout w1 @ out
                \<and> stdout (snd (run plat w2)) = stdout w2 @ out)"
  using assms by (rule run_local)

theorem run_deterministic_witness:
  "files (world_of [0x6F, 0x6B]) target_path
     = files ((world_of [0x6F, 0x6B])\<lparr>stdout := [104, 105]\<rparr>) target_path
   \<and> fst (run Posix (world_of [0x6F, 0x6B]))
       = fst (run Posix ((world_of [0x6F, 0x6B])\<lparr>stdout := [104, 105]\<rparr>))
   \<and> files (snd (run Posix (world_of [0x6F, 0x6B]))) target_path
       = files (snd (run Posix ((world_of [0x6F, 0x6B])\<lparr>stdout := [104, 105]\<rparr>))) target_path"
  using run_deterministic
    [of "world_of [0x6F, 0x6B]" "(world_of [0x6F, 0x6B])\<lparr>stdout := [104, 105]\<rparr>" Posix]
  by simp

text \<open>
  C8 as stated makes the result a function of the content of the file alone. It is not:
  the same bytes \<open>a\n\<close> are left as they are on a POSIX platform and become \<open>a\r\n\<close>
  on Windows; and on one platform the bytes \<open>a\r\<close> become \<open>a\n\<close> where the file may
  be written and stay as they are where it may not.
\<close>

theorem content_alone_counterexample:
  "target_bytes (snd (run Posix (world_of [0x61, 0x0A]))) = Some [0x61, 0x0A]
   \<and> target_bytes (snd (run Windows (world_of [0x61, 0x0A]))) = Some [0x61, 0x0D, 0x0A]
   \<and> target_bytes (snd (run Posix
         (world_with \<lparr>data = [0x61, 0x0D], readable = True, writable = True\<rparr>)))
       = Some [0x61, 0x0A]
   \<and> target_bytes (snd (run Posix
         (world_with \<lparr>data = [0x61, 0x0D], readable = True, writable = False\<rparr>)))
       = Some [0x61, 0x0D]"
proof -
  have d1: "utf8_decode [0x61, 0x0A] = Some [97, 10]"
    by (simp add: utf8_decode.simps utf8_width_def utf8_value_def)
  have d2: "utf8_decode [0x61, 0x0D] = Some [97, 13]"
    by (simp add: utf8_decode.simps utf8_width_def utf8_value_def)
  have f1: "fixed_text [97, 10] = [97, 10]"
    by (simp add: fixed_text_def re_scan.simps target_literal_def str_def)
  have f2: "fixed_text [97, 13] = [97, 10]"
    by (simp add: fixed_text_def re_scan.simps target_literal_def str_def)
  have e1: "utf8_encode (translate_write Posix (fixed_text [97, 10])) = Some [0x61, 0x0A]"
    unfolding f1 by (simp add: translate_write_def linesep_def utf8_encode_cp_def)
  have e2: "utf8_encode (translate_write Windows (fixed_text [97, 10])) = Some [0x61, 0x0D, 0x0A]"
    unfolding f1 by (simp add: translate_write_def linesep_def utf8_encode_cp_def)
  have e3: "utf8_encode (translate_write Posix (fixed_text [97, 13])) = Some [0x61, 0x0A]"
    unfolding f2 by (simp add: translate_write_def linesep_def utf8_encode_cp_def)
  have 3: "target_bytes (snd (run Posix
         (world_with \<lparr>data = [0x61, 0x0D], readable = True, writable = True\<rparr>)))
       = Some [0x61, 0x0A]"
    using run_world_with [of "\<lparr>data = [0x61, 0x0D], readable = True, writable = True\<rparr>"
        "[97, 13]" Posix "[0x61, 0x0A]"] d2 e3
    by simp
  have "files (world_with \<lparr>data = [0x61, 0x0D], readable = True, writable = False\<rparr>) target_path
      = Some (File \<lparr>data = [0x61, 0x0D], readable = True, writable = False\<rparr>)"
    by (simp add: world_with_def)
  then have 4: "target_bytes (snd (run Posix
         (world_with \<lparr>data = [0x61, 0x0D], readable = True, writable = False\<rparr>)))
       = Some [0x61, 0x0D]"
    by (simp add: run_file d2 target_bytes_def)
  show ?thesis
    using run_world_of [OF d1 e1] run_world_of [OF d1 e2] 3 4 by simp
qed

text \<open>
  C9: where reading fails, at \<open>open\<close> or in decoding the bytes as UTF-8, the script
  ends with that exception and the files are as they were: the file is opened for
  writing only after the content has been read and the substitution done.
\<close>

theorem read_failure_leaves_file:
  assumes "read_file w target_path = Inl e"
  shows "run plat w = (Inl e, w) \<and> files (snd (run plat w)) = files w"
  using assms by (simp add: run_read_failure)

theorem read_failure_leaves_file_witness:
  "read_file (world_of [0xFF]) target_path = Inl UnicodeDecodeError
   \<and> run Posix (world_of [0xFF]) = (Inl UnicodeDecodeError, world_of [0xFF])"
proof -
  have r: "read_file (world_of [0xFF]) target_path = Inl UnicodeDecodeError"
    by (simp add: read_file_def open_read_def read_text_def world_of_def world_with_def
        utf8_decode.simps utf8_width_def)
  from read_failure_leaves_file [OF r, of Posix] r show ?thesis by simp
qed

text \<open>
  C2, as amended: where the content of the target file has no occurrence of the searched
  expression, the run succeeds and writes the content back with its line endings
  rewritten: every \<open>\r\n\<close> and every single \<open>\r\<close> has become \<open>\n\<close> on reading, and every
  \<open>\n\<close> becomes the line separator of the platform on writing. The file is the same,
  byte for byte, where this rewriting changes nothing, as on a platform with the
  separator \<open>\n\<close> for a content without carriage return.
\<close>

theorem no_match_keeps_text:
  assumes "files w target_path = Some (File f)" and "readable f" and "writable f"
    and "utf8_decode (data f) = Some s" and "occurrences target_literal s = 0"
  shows "fst (run plat w) = Inr ()
       \<and> (\<exists>bs. utf8_encode (translate_write plat (translate_read s)) = Some bs
                \<and> files (snd (run plat w)) = (files w)(target_path \<mapsto> File (f\<lparr>data := bs\<rparr>)))
       \<and> (translate_write plat (translate_read s) = s \<longrightarrow> files (snd (run plat w)) = files w)
       \<and> (plat = Posix \<and> 13 \<notin> set s \<longrightarrow> translate_write plat (translate_read s) = s)"
  using assms by (rule run_no_match)

theorem no_match_keeps_text_witness:
  "utf8_decode (data \<lparr>data = [0x6F, 0x6B, 0x0A], readable = True, writable = True\<rparr>)
     = Some [111, 107, 10]
   \<and> occurrences target_literal [111, 107, 10] = 0
   \<and> fst (run Posix (world_of [0x6F, 0x6B, 0x0A])) = Inr ()
   \<and> files (snd (run Posix (world_of [0x6F, 0x6B, 0x0A]))) = files (world_of [0x6F, 0x6B, 0x0A])"
proof -
  let ?f = "\<lparr>data = [0x6F, 0x6B, 0x0A] :: byte list, readable = True, writable = True\<rparr>"
  have d: "utf8_decode (data ?f) = Some [111, 107, 10]"
    by (simp add: utf8_decode.simps utf8_width_def utf8_value_def)
  have o: "occurrences target_literal [111, 107, 10] = 0"
    by (simp add: target_literal_def str_def)
  have f: "files (world_of [0x6F, 0x6B, 0x0A]) target_path = Some (File ?f)"
    by (simp add: world_of_def world_with_def)
  from no_match_keeps_text [OF f _ _ d o, of Posix] d o show ?thesis
    by simp
qed

text \<open>
  C2 as stated fails on a file with a Windows line ending that is patched on a POSIX
  platform: the four bytes \<open>a\r\nb\<close> have no occurrence of the searched expression, and
  the run leaves the three bytes \<open>a\nb\<close>.
\<close>

theorem byte_identical_counterexample:
  "utf8_decode [0x61, 0x0D, 0x0A, 0x62] = Some [97, 13, 10, 98]
   \<and> occurrences target_literal [97, 13, 10, 98] = 0
   \<and> fst (run Posix (world_of [0x61, 0x0D, 0x0A, 0x62])) = Inr ()
   \<and> target_bytes (world_of [0x61, 0x0D, 0x0A, 0x62]) = Some [0x61, 0x0D, 0x0A, 0x62]
   \<and> target_bytes (snd (run Posix (world_of [0x61, 0x0D, 0x0A, 0x62]))) = Some [0x61, 0x0A, 0x62]"
proof -
  let ?f = "\<lparr>data = [0x61, 0x0D, 0x0A, 0x62] :: byte list, readable = True, writable = True\<rparr>"
  have "run Posix (world_of [0x61, 0x0D, 0x0A, 0x62])
      = (Inr (), print_fixed ((world_of [0x61, 0x0D, 0x0A, 0x62])\<lparr>files :=
            (files (world_of [0x61, 0x0D, 0x0A, 0x62]))
              (target_path \<mapsto> File (?f\<lparr>data := [0x61, 0x0A, 0x62]\<rparr>))\<rparr>))"
    by (rule run_ok [where s = "[97, 13, 10, 98]"])
       (simp_all add: world_of_def world_with_def ex1_decode ex1_fixed ex1_encode)
  moreover have "occurrences target_literal [97, 13, 10, 98] = 0"
    by (simp add: target_literal_def str_def)
  ultimately show ?thesis
    by (simp add: target_bytes_def print_fixed_def ex1_decode world_of_def world_with_def)
qed

text \<open>
  C3: a second run of the script, right after the first, ends as the first did and
  leaves the files as the first left them.
\<close>

theorem run_twice_as_once:
  "fst (run plat (snd (run plat w))) = fst (run plat w)
   \<and> files (snd (run plat (snd (run plat w)))) = files (snd (run plat w))"
  by (rule run_again)

end
